theory Spec2Isabelle
  imports Main
begin

section \<open>Deriving the backend base URL (\<open>resolveBackendBaseUrl\<close>, lines 286--311)\<close>

text \<open>
  JavaScript strings are modelled as \<^typ>\<open>string\<close>; every character stands for one
  UTF-16 code unit below 256. \<open>String.prototype.trim\<close> strips the ECMAScript white
  space and line terminator code units; the ones below 256 are TAB, LF, VT, FF, CR,
  SPACE and NBSP (0xA0).
\<close>

definition js_space :: "char \<Rightarrow> bool" where
  "js_space c = (of_char c \<in> {9, 10, 11, 12, 13, 32, 160 :: nat})"

definition trim :: "string \<Rightarrow> string" where
  "trim s = rev (dropWhile js_space (rev (dropWhile js_space s)))"

text \<open>\<open>raw.startsWith(p)\<close>.\<close>

definition startsWith :: "string \<Rightarrow> string \<Rightarrow> bool" where
  "startsWith s p = (take (length p) s = p)"

text \<open>
  \<open>s.lastIndexOf(p)\<close>: the greatest index at which \<open>p\<close> occurs in \<open>s\<close>, or \<open>-1\<close>.
\<close>

definition lastIndexOf :: "string \<Rightarrow> string \<Rightarrow> int" where
  "lastIndexOf s p =
     (case filter (\<lambda>i. take (length p) (drop i s) = p) (rev [0..<Suc (length s)]) of
        [] \<Rightarrow> - 1
      | i # _ \<Rightarrow> int i)"

text \<open>
  \<open>s.slice(a, b)\<close> and \<open>s.slice(a)\<close>, for the non-negative indices the source passes
  (it calls them only after \<open>idx > 0\<close>).
\<close>

definition slice :: "string \<Rightarrow> int \<Rightarrow> int \<Rightarrow> string" where
  "slice s a b = take (nat b - nat a) (drop (nat a) s)"

definition sliceFrom :: "string \<Rightarrow> int \<Rightarrow> string" where
  "sliceFrom s a = drop (nat a) s"

text \<open>
  The argument is \<open>String(listen || '')\<close>: a falsy \<open>listen\<close> is the empty string.
\<close>

definition resolveBackendBaseUrl :: "string \<Rightarrow> string" where
  "resolveBackendBaseUrl listen =
     (let raw = trim listen in
      if raw = [] then ''http://127.0.0.1:9108''
      else
        let (host, port) =
              (if startsWith raw ''['' then
                 (let idx = lastIndexOf raw '']:'' in
                  if idx > 0 then (slice raw 1 idx, sliceFrom raw (idx + 2))
                  else (''127.0.0.1'', ''9108''))
               else
                 (let idx = lastIndexOf raw '':'' in
                  if idx > 0 then (slice raw 0 idx, sliceFrom raw (idx + 1))
                  else (''127.0.0.1'', ''9108'')));
            host' = (if host = [] \<or> host = ''0.0.0.0'' \<or> host = ''::''
                     then ''127.0.0.1'' else host)
        in ''http://'' @ host' @ '':'' @ port)"

text \<open>
  The hypothesis of the claim on inputs without a separator, in the grammar the function
  parses: a bracketed input separates host and port by \<open>]:\<close>, any other input by
  \<open>:\<close>. \<open>occurs p s\<close> holds when \<open>p\<close> is a substring of \<open>s\<close>.
\<close>

definition occurs :: "string \<Rightarrow> string \<Rightarrow> bool" where
  "occurs p s = list_ex (\<lambda>i. take (length p) (drop i s) = p) [0..<Suc (length s)]"

definition no_separator :: "string \<Rightarrow> bool" where
  "no_separator raw =
     (if startsWith raw ''['' then \<not> occurs '']:'' raw else CHR '':'' \<notin> set raw)"

section \<open>Child processes, the file system and the clock\<close>

datatype signal = SIGTERM | SIGKILL | SIGSEGV

datatype ending = ExitCode int | BySignal signal

record child =
  pid :: "nat option"
  exitCode :: "int option"
  signalCode :: "signal option"
  killed :: bool
  death :: "(nat \<times> ending) option"
  on_term :: "(nat \<times> ending) option"
  on_kill :: "(nat \<times> ending) option"
  kill_throws :: bool

definition exited :: "child \<Rightarrow> bool" where
  "exited c = (exitCode c \<noteq> None \<or> signalCode c \<noteq> None)"

record doc =
  doc_listen :: string
  doc_telegram_enabled :: bool

datatype response = RespOk | RespNotOk | NetError

datatype effect =
    SpawnAgent string "string list" nat
  | SpawnTaskkill nat
  | Kill nat signal
  | Fetch string nat
  | WriteConfig string bool

record env =
  win32 :: bool
  isPackaged :: bool
  existsSync :: "string \<Rightarrow> bool"
  writable :: "string \<Rightarrow> bool"
  join :: "string list \<Rightarrow> string"
  isAbsolute :: "string \<Rightarrow> bool"
  projectRoot :: string
  resourcesPath :: string
  userData :: string
  spawned :: "nat \<Rightarrow> child"
  taskkill_time :: nat
  fetch :: "string \<Rightarrow> nat \<Rightarrow> response \<times> nat"
  io_time :: nat

record state =
  agentChild :: "nat option"
  telegramEnabledRuntime :: bool
  backendBaseUrlRuntime :: string
  agentTransitioning :: bool
  children :: "child list"
  files :: "string \<Rightarrow> doc option"
  clock :: nat
  trace :: "effect list"

definition initial :: "(string \<Rightarrow> doc option) \<Rightarrow> state" where
  "initial fs = \<lparr>agentChild = None, telegramEnabledRuntime = False,
     backendBaseUrlRuntime = ''http://127.0.0.1:9108'', agentTransitioning = False,
     children = [], files = fs, clock = 0, trace = []\<rparr>"

definition due :: "nat \<Rightarrow> child \<Rightarrow> bool" where
  "due t c = (\<not> exited c \<and> (case death c of None \<Rightarrow> False | Some (td, e) \<Rightarrow> td \<le> t))"

definition emit_exit :: "child \<Rightarrow> child" where
  "emit_exit c =
     (case death c of
        None \<Rightarrow> c
      | Some (td, ExitCode n) \<Rightarrow> c\<lparr>exitCode := Some n\<rparr>
      | Some (td, BySignal sg) \<Rightarrow> c\<lparr>signalCode := Some sg\<rparr>)"

definition attachAgentLifecycle :: "nat \<Rightarrow> state \<Rightarrow> state" where
  "attachAgentLifecycle h s =
     (if agentChild s = Some h
      then s\<lparr>agentChild := None, telegramEnabledRuntime := False\<rparr>
      else s)"

definition exit_event :: "nat \<Rightarrow> state \<Rightarrow> state" where
  "exit_event h s =
     attachAgentLifecycle h (s\<lparr>children := (children s)[h := emit_exit (children s ! h)]\<rparr>)"

definition deliver :: "state \<Rightarrow> state" where
  "deliver s =
     fold exit_event
       (filter (\<lambda>h. due (clock s) (children s ! h)) [0..<length (children s)]) s"

definition advance :: "nat \<Rightarrow> state \<Rightarrow> state" where
  "advance d s = deliver (s\<lparr>clock := clock s + d\<rparr>)"

section \<open>Terminating a child (\<open>waitForExit\<close>, \<open>stopAgentProcess\<close>, lines 334--394)\<close>

definition schedule :: "nat \<Rightarrow> (nat \<times> ending) option \<Rightarrow> child \<Rightarrow> child" where
  "schedule t r c =
     (case r of
        None \<Rightarrow> c
      | Some (d, e) \<Rightarrow>
          (case death c of
             None \<Rightarrow> c\<lparr>death := Some (t + d, e)\<rparr>
           | Some (td, e') \<Rightarrow> if td \<le> t + d then c else c\<lparr>death := Some (t + d, e)\<rparr>))"

definition reaction :: "signal \<Rightarrow> child \<Rightarrow> (nat \<times> ending) option" where
  "reaction sg c = (case sg of SIGTERM \<Rightarrow> on_term c | SIGKILL \<Rightarrow> on_kill c | SIGSEGV \<Rightarrow> None)"

definition kill :: "nat \<Rightarrow> signal \<Rightarrow> state \<Rightarrow> state + state" where
  "kill h sg s =
     (let c = children s ! h; s' = s\<lparr>trace := trace s @ [Kill h sg]\<rparr> in
      if exited c then Inr s'
      else if kill_throws c then Inl s'
      else Inr (s'\<lparr>children :=
                  (children s)[h := schedule (clock s) (reaction sg c) (c\<lparr>killed := True\<rparr>)]\<rparr>))"

definition taskkill :: "nat \<Rightarrow> state \<Rightarrow> state" where
  "taskkill h s =
     (let c = children s ! h in
      s\<lparr>children := (children s)[h := schedule (clock s) (on_kill c) c],
        trace := trace s @ [SpawnTaskkill (the (pid c))]\<rparr>)"

definition waitFor :: "nat option \<Rightarrow> nat \<Rightarrow> state \<Rightarrow> state" where
  "waitFor ev timeoutMs s =
     advance (case ev of None \<Rightarrow> timeoutMs | Some d \<Rightarrow> if d < timeoutMs then d else timeoutMs) s"

definition time_to_exit :: "nat \<Rightarrow> child \<Rightarrow> nat option" where
  "time_to_exit t c =
     (if exited c then None
      else case death c of None \<Rightarrow> None | Some (td, e) \<Rightarrow> Some (td - t))"

definition waitForExit :: "nat \<Rightarrow> nat \<Rightarrow> state \<Rightarrow> state" where
  "waitForExit h timeoutMs s =
     (let c = children s ! h in
      if exitCode c \<noteq> None \<or> killed c then s
      else waitFor (time_to_exit (clock s) c) timeoutMs s)"

definition stop_finally :: "nat \<Rightarrow> state \<Rightarrow> state" where
  "stop_finally h s =
     (if agentChild s = Some h
      then s\<lparr>agentChild := None, telegramEnabledRuntime := False\<rparr>
      else s)"

definition stopAgentProcess :: "env \<Rightarrow> state \<Rightarrow> bool \<times> state" where
  "stopAgentProcess e s =
     (case agentChild s of
        None \<Rightarrow> (True, s)
      | Some h \<Rightarrow>
          let (r, s') =
                (case (if win32 e \<and> pid (children s ! h) \<noteq> None
                       then Inr (waitFor (Some (taskkill_time e)) 5000 (taskkill h s))
                       else kill h SIGTERM s) of
                   Inl s1 \<Rightarrow> (False, s1)
                 | Inr s1 \<Rightarrow>
                     let s2 = waitForExit h 7000 s1 in
                     if exitCode (children s2 ! h) = None \<and> \<not> killed (children s2 ! h)
                     then (case kill h SIGKILL s2 of
                             Inl s3 \<Rightarrow> (False, s3)
                           | Inr s3 \<Rightarrow> (True, waitForExit h 2000 s3))
                     else (True, s2))
          in (r, stop_finally h s'))"

section \<open>The health probe (\<open>waitForBackendReady\<close>, lines 396--417)\<close>

function waitForBackendReady_loop ::
  "env \<Rightarrow> string \<Rightarrow> nat \<Rightarrow> nat \<Rightarrow> nat \<Rightarrow> state \<Rightarrow> bool \<times> state" where
  "waitForBackendReady_loop e baseUrl h startedAt timeoutMs s =
     (if clock s - startedAt < timeoutMs then
        if exitCode (children s ! h) \<noteq> None then (False, s)
        else
          (case fetch e (baseUrl @ ''/healthz'') (clock s) of
             (r, d) \<Rightarrow>
               let s1 = advance d (s\<lparr>trace := trace s @ [Fetch (baseUrl @ ''/healthz'') (clock s)]\<rparr>)
               in if r = RespOk then (True, s1)
                  else waitForBackendReady_loop e baseUrl h startedAt timeoutMs (advance 150 s1))
      else (False, s))"
  by pat_completeness auto
termination
proof (relation "measure (\<lambda>(e, baseUrl, h, startedAt, timeoutMs, s). startedAt + timeoutMs - clock s)")
  show "wf (measure (\<lambda>(e, baseUrl, h, startedAt, timeoutMs, s). startedAt + timeoutMs - clock s))"
    by simp
next
  fix e :: env and baseUrl :: string and h startedAt timeoutMs :: nat and s :: state
    and x :: "response \<times> nat" and r :: response and d :: nat and s1 :: state
  assume lt: "clock s - startedAt < timeoutMs"
    and s1: "s1 = advance d (s\<lparr>trace := trace s @ [Fetch (baseUrl @ ''/healthz'') (clock s)]\<rparr>)"
  have fold_clock: "clock (fold exit_event hs u) = clock u" for hs u
    by (induction hs arbitrary: u) (simp_all add: exit_event_def attachAgentLifecycle_def)
  have "clock (advance k u) = clock u + k" for k u
    by (simp add: advance_def deliver_def fold_clock)
  then have "clock (advance 150 s1) = clock s + d + 150" by (simp add: s1)
  with lt show "((e, baseUrl, h, startedAt, timeoutMs, advance 150 s1),
                 (e, baseUrl, h, startedAt, timeoutMs, s))
        \<in> measure (\<lambda>(e, baseUrl, h, startedAt, timeoutMs, s). startedAt + timeoutMs - clock s)"
    by simp
qed

definition waitForBackendReady :: "env \<Rightarrow> string \<Rightarrow> nat \<Rightarrow> nat \<Rightarrow> state \<Rightarrow> bool \<times> state" where
  "waitForBackendReady e baseUrl h timeoutMs s =
     waitForBackendReady_loop e baseUrl h (clock s) timeoutMs s"

declare waitForBackendReady_loop.simps [simp del]

section \<open>The configuration file (lines 226--243, 419--427)\<close>

definition setTelegramEnabledInConfig :: "env \<Rightarrow> string \<Rightarrow> bool \<Rightarrow> state \<Rightarrow> bool \<times> state" where
  "setTelegramEnabledInConfig e configPath enabled s =
     (let s1 = advance (io_time e) s in
      case files s1 configPath of
        None \<Rightarrow> (False, s1)
      | Some parsed \<Rightarrow>
          if doc_telegram_enabled parsed = enabled then (False, s1)
          else if \<not> writable e configPath then (False, advance (io_time e) s1)
          else (True, advance (io_time e)
                  (s1\<lparr>files := (files s1)(configPath \<mapsto> parsed\<lparr>doc_telegram_enabled := enabled\<rparr>),
                      trace := trace s1 @ [WriteConfig configPath enabled]\<rparr>)))"

definition readListenFromConfig :: "env \<Rightarrow> string \<Rightarrow> state \<Rightarrow> string \<times> state" where
  "readListenFromConfig e configPath s =
     (let s1 = advance (io_time e) s in
      case files s1 configPath of
        None \<Rightarrow> (''127.0.0.1:9108'', s1)
      | Some parsed \<Rightarrow>
          (if doc_listen parsed = [] then ''127.0.0.1:9108'' else doc_listen parsed, s1))"

section \<open>Spawning and starting the agent (lines 282--284, 313--332, 429--449)\<close>

datatype error = AgentBinaryNotFound string

datatype msg =
    MsgAlreadyRunning
  | MsgNotReady
  | MsgStartedWithTelegram
  | MsgStartedWithoutTelegram
  | MsgStartFailed error
  | MsgNotRunning
  | MsgStopped
  | MsgToggleRolledBack "msg option"
  | MsgToggleRollbackFailed "msg option"
  | MsgTelegramOn
  | MsgTelegramOff
  | MsgToggleError error

record start_result =
  s_ok :: bool
  s_message :: "msg option"
  s_baseUrl :: string

record result =
  ok :: bool
  message :: "msg option"

definition buildArgs :: "string \<Rightarrow> bool \<Rightarrow> string list" where
  "buildArgs configPath telegramEnabled = [''--config'', configPath]"

definition birth :: "nat \<Rightarrow> child \<Rightarrow> child" where
  "birth t b =
     b\<lparr>exitCode := None, signalCode := None, killed := False,
       death := map_option (\<lambda>(d, e). (t + d, e)) (death b)\<rparr>"

definition spawn :: "env \<Rightarrow> string \<Rightarrow> string list \<Rightarrow> state \<Rightarrow> nat \<times> state" where
  "spawn e cmd args s =
     (let h = length (children s) in
      (h, s\<lparr>children := children s @ [birth (clock s) (spawned e h)],
            trace := trace s @ [SpawnAgent cmd args h]\<rparr>))"

definition spawnAgentProcess ::
  "env \<Rightarrow> string \<Rightarrow> string \<Rightarrow> bool \<Rightarrow> state \<Rightarrow> error + nat \<times> state" where
  "spawnAgentProcess e binPath configPath telegramEnabled s =
     (let args = buildArgs configPath telegramEnabled in
      if existsSync e binPath then Inr (spawn e binPath args s)
      else if isPackaged e then Inl (AgentBinaryNotFound binPath)
      else Inr (spawn e ''cargo'' ([''run'', ''--''] @ args) s))"

definition startAgentManaged ::
  "env \<Rightarrow> string \<Rightarrow> string \<Rightarrow> bool \<Rightarrow> bool \<Rightarrow> state
     \<Rightarrow> error \<times> state + start_result \<times> state" where
  "startAgentManaged e binPath configPath telegramEnabled syncTelegramConfig s =
     (let s1 = (if syncTelegramConfig
                then snd (setTelegramEnabledInConfig e configPath telegramEnabled s) else s) in
      case spawnAgentProcess e binPath configPath telegramEnabled s1 of
        Inl err \<Rightarrow> Inl (err, s1)
      | Inr (child, s2) \<Rightarrow>
          let s3 = s2\<lparr>agentChild := Some child, telegramEnabledRuntime := telegramEnabled\<rparr>;
              (listen, s4) = readListenFromConfig e configPath s3;
              baseUrl = resolveBackendBaseUrl listen;
              s5 = s4\<lparr>backendBaseUrlRuntime := baseUrl\<rparr>;
              (ready, s6) = waitForBackendReady e baseUrl child 30000 s5
          in if \<not> ready
             then Inr (\<lparr>s_ok = False, s_message = Some MsgNotReady, s_baseUrl = baseUrl\<rparr>,
                       snd (stopAgentProcess e s6))
             else Inr (\<lparr>s_ok = True, s_message = None, s_baseUrl = baseUrl\<rparr>, s6))"

section \<open>Paths (lines 18--20, 156--198)\<close>

definition runtimeConfigPath :: "env \<Rightarrow> string" where
  "runtimeConfigPath e = join e [userData e, ''config.yaml'']"

definition defaultMonitordBin :: "env \<Rightarrow> string" where
  "defaultMonitordBin e =
     (if isPackaged e then
        (if win32 e then join e [resourcesPath e, ''bin'', ''monitord.exe'']
         else join e [resourcesPath e, ''bin'', ''monitord''])
      else
        let primaryBin = (if win32 e
              then join e [projectRoot e, ''build_target'', ''debug'', ''monitord.exe'']
              else join e [projectRoot e, ''build_target'', ''debug'', ''monitord''])
        in if existsSync e primaryBin then primaryBin
           else
             let verifyBin = (if win32 e
                   then join e [projectRoot e, ''build_target_verify'', ''debug'', ''monitord.exe'']
                   else join e [projectRoot e, ''build_target_verify'', ''debug'', ''monitord''])
             in if existsSync e verifyBin then verifyBin else primaryBin)"

definition resolveProjectPath :: "env \<Rightarrow> string \<Rightarrow> string" where
  "resolveProjectPath e p =
     (if p = [] then p
      else if isAbsolute e p then p
      else if isPackaged e then join e [resourcesPath e, p]
      else join e [projectRoot e, p])"

definition normalize :: "string \<Rightarrow> string" where
  "normalize p =
     (let q = map (\<lambda>c. if c = CHR 0x5C then CHR ''/'' else c) p
      in if startsWith q ''./'' then drop 2 q else q)"

definition resolveConfigPath :: "env \<Rightarrow> string \<Rightarrow> string" where
  "resolveConfigPath e p =
     (if p = [] then runtimeConfigPath e
      else if isAbsolute e p then p
      else
        let normalized = normalize p in
        if normalized = ''config.yaml'' then runtimeConfigPath e
        else if isPackaged e then join e [resourcesPath e, normalized]
        else join e [projectRoot e, p])"

section \<open>The operations (lines 133--154, 451--472, 499--593)\<close>

text \<open>
  One operation as the serializer runs it (the body of both handlers of
  \<open>agentOpChain.then\<close>, lines 135--142 and 143--150).
\<close>

definition withAgentOp_body :: "(state \<Rightarrow> 'a \<times> state) \<Rightarrow> state \<Rightarrow> 'a \<times> state" where
  "withAgentOp_body fn s =
     (let (r, s') = fn (s\<lparr>agentTransitioning := True\<rparr>)
      in (r, s'\<lparr>agentTransitioning := False\<rparr>))"

record payload =
  p_binPath :: string
  p_configPath :: string
  p_telegramEnabled :: bool

definition agent_start_fn :: "env \<Rightarrow> payload \<Rightarrow> state \<Rightarrow> result \<times> state" where
  "agent_start_fn e p s =
     (if agentChild s \<noteq> None then (\<lparr>ok = False, message = Some MsgAlreadyRunning\<rparr>, s)
      else
        let rawBinPath = (if p_binPath p \<noteq> [] then p_binPath p else defaultMonitordBin e);
            binPath = resolveProjectPath e rawBinPath;
            configPath = resolveConfigPath e
                           (if p_configPath p \<noteq> [] then p_configPath p else ''./config.yaml'');
            telegramEnabled = p_telegramEnabled p
        in case startAgentManaged e binPath configPath telegramEnabled True s of
             Inr (started, s') \<Rightarrow>
               if \<not> s_ok started then (\<lparr>ok = False, message = s_message started\<rparr>, s')
               else (\<lparr>ok = True,
                      message = Some (if telegramEnabled then MsgStartedWithTelegram
                                      else MsgStartedWithoutTelegram)\<rparr>, s')
           | Inl (err, s') \<Rightarrow>
               (\<lparr>ok = False, message = Some (MsgStartFailed err)\<rparr>, s'\<lparr>agentChild := None\<rparr>))"

definition agent_start :: "env \<Rightarrow> payload \<Rightarrow> state \<Rightarrow> result \<times> state" where
  "agent_start e p = withAgentOp_body (agent_start_fn e p)"

definition agent_stop_fn :: "env \<Rightarrow> state \<Rightarrow> result \<times> state" where
  "agent_stop_fn e s =
     (if agentChild s = None then (\<lparr>ok = False, message = Some MsgNotRunning\<rparr>, s)
      else (\<lparr>ok = True, message = Some MsgStopped\<rparr>, snd (stopAgentProcess e s)))"

definition agent_stop :: "env \<Rightarrow> state \<Rightarrow> result \<times> state" where
  "agent_stop e = withAgentOp_body (agent_stop_fn e)"

definition telegram_set_enabled_fn :: "env \<Rightarrow> bool \<Rightarrow> state \<Rightarrow> result \<times> state" where
  "telegram_set_enabled_fn e enabled s =
     (let configPath = resolveConfigPath e ''./config.yaml'';
          binPath = defaultMonitordBin e;
          targetEnabled = enabled;
          prevEnabled = telegramEnabledRuntime s;
          s0 = snd (stopAgentProcess e s)
      in case startAgentManaged e binPath configPath targetEnabled True s0 of
           Inl (err, s') \<Rightarrow> (\<lparr>ok = False, message = Some (MsgToggleError err)\<rparr>, s')
         | Inr (started, s1) \<Rightarrow>
             if \<not> s_ok started then
               (case startAgentManaged e binPath configPath prevEnabled True s1 of
                  Inl (err, s') \<Rightarrow> (\<lparr>ok = False, message = Some (MsgToggleError err)\<rparr>, s')
                | Inr (rollback, s2) \<Rightarrow>
                    if s_ok rollback
                    then (\<lparr>ok = False, message = Some (MsgToggleRolledBack (s_message started))\<rparr>, s2)
                    else (\<lparr>ok = False,
                           message = Some (MsgToggleRollbackFailed (s_message started))\<rparr>, s2))
             else (\<lparr>ok = True,
                    message = Some (if targetEnabled then MsgTelegramOn else MsgTelegramOff)\<rparr>, s1))"

definition telegram_set_enabled :: "env \<Rightarrow> bool \<Rightarrow> state \<Rightarrow> result \<times> state" where
  "telegram_set_enabled e enabled = withAgentOp_body (telegram_set_enabled_fn e enabled)"

text \<open>
  The start at application launch (\<open>ensureBackendStarted\<close>, lines 451--472, called at
  line 478): also serialized, with the feature off and without synchronising the
  configuration file first. A spawn that throws rejects the operation (the caller
  swallows the rejection, line 478).
\<close>

definition ensureBackendStarted_fn :: "env \<Rightarrow> state \<Rightarrow> error option \<times> state" where
  "ensureBackendStarted_fn e s =
     (if agentChild s \<noteq> None then (None, s)
      else
        let configPath = resolveConfigPath e ''./config.yaml'';
            binPath = defaultMonitordBin e
        in case startAgentManaged e binPath configPath False False s of
             Inl (err, s') \<Rightarrow> (Some err, s')
           | Inr (started, s1) \<Rightarrow>
               if \<not> s_ok started then
                 let s2 = snd (setTelegramEnabledInConfig e configPath False s1)
                 in (case startAgentManaged e binPath configPath False False s2 of
                       Inl (err, s') \<Rightarrow> (Some err, s')
                     | Inr (again, s3) \<Rightarrow> (None, s3))
               else (None, s1))"


record status_reply =
  r_running :: bool
  r_pid :: "nat option"
  r_telegramEnabled :: bool
  r_baseUrl :: string
  r_transitioning :: bool

definition agent_status :: "state \<Rightarrow> status_reply" where
  "agent_status s =
     \<lparr>r_running = (agentChild s \<noteq> None),
      r_pid = (case agentChild s of None \<Rightarrow> None | Some h \<Rightarrow> pid (children s ! h)),
      r_telegramEnabled = telegramEnabledRuntime s,
      r_baseUrl = backendBaseUrlRuntime s,
      r_transitioning = agentTransitioning s\<rparr>"

section \<open>Predicates used in the statements\<close>

text \<open>The tracked child, if any, is a spawned child whose exit has not been notified.\<close>

definition tracked_alive :: "state \<Rightarrow> bool" where
  "tracked_alive s =
     (case agentChild s of
        None \<Rightarrow> True
      | Some h \<Rightarrow> h < length (children s) \<and> \<not> exited (children s ! h))"

text \<open>
  \<open>passes s s'\<close>: from \<open>s\<close> to \<open>s'\<close> only time has passed and signals were sent. Files,
  the transitioning flag, the number of children and their pids are the same, the trace
  is extended, exits are never undone, and the tracked child is either still tracked and running or
  was untracked by its own exit notification.
\<close>

definition passes :: "state \<Rightarrow> state \<Rightarrow> bool" where
  "passes s s' =
     (files s' = files s \<and> agentTransitioning s' = agentTransitioning s
      \<and> length (children s') = length (children s) \<and> clock s \<le> clock s'
      \<and> (\<exists>tr. trace s' = trace s @ tr)
      \<and> (\<forall>k < length (children s). exited (children s ! k) \<longrightarrow> exited (children s' ! k))
      \<and> (\<forall>k < length (children s). pid (children s' ! k) = pid (children s ! k))
      \<and> (case agentChild s of
            None \<Rightarrow> agentChild s' = None \<and> telegramEnabledRuntime s' = telegramEnabledRuntime s
          | Some h \<Rightarrow>
              h < length (children s) \<and>
              (agentChild s' = Some h \<and> telegramEnabledRuntime s' = telegramEnabledRuntime s
                 \<and> \<not> exited (children s' ! h)
               \<or> agentChild s' = None \<and> \<not> telegramEnabledRuntime s'
                 \<and> exited (children s' ! h))))"

text \<open>The first effect of \<open>stopAgentProcess\<close> on a tracked child \<open>h\<close> (lines 370--378).\<close>

definition stop_request :: "env \<Rightarrow> nat \<Rightarrow> state \<Rightarrow> effect" where
  "stop_request e h s =
     (if win32 e \<and> pid (children s ! h) \<noteq> None
      then SpawnTaskkill (the (pid (children s ! h))) else Kill h SIGTERM)"

text \<open>
  \<open>started e h b res s1 s'\<close>: what \<open>startAgentManaged\<close> returns after it spawned child
  \<open>h\<close> in state \<open>s1\<close> with flag \<open>b\<close>.
\<close>

definition started :: "env \<Rightarrow> nat \<Rightarrow> bool \<Rightarrow> start_result \<Rightarrow> state \<Rightarrow> state \<Rightarrow> bool" where
  "started e h b res s1 s' =
     (files s' = files s1 \<and> agentTransitioning s' = agentTransitioning s1
      \<and> length (children s') = Suc h
      \<and> (\<forall>k < h. exited (children s1 ! k) \<longrightarrow> exited (children s' ! k))
      \<and> (\<exists>cmd args tr. trace s' = trace s1 @ SpawnAgent cmd args h # tr
           \<and> (if s_ok res
               then s_message res = None
                  \<and> (agentChild s' = Some h \<and> telegramEnabledRuntime s' = b
                        \<and> \<not> exited (children s' ! h)
                      \<or> agentChild s' = None \<and> \<not> telegramEnabledRuntime s'
                        \<and> exited (children s' ! h))
               else s_message res = Some MsgNotReady \<and> agentChild s' = None
                  \<and> \<not> telegramEnabledRuntime s'
                  \<and> (exited (children s' ! h)
                      \<or> Kill h SIGTERM \<in> set tr
                      \<or> (\<exists>p. pid (children s' ! h) = Some p \<and> SpawnTaskkill p \<in> set tr)))))"

text \<open>
  The instant \<open>startedAt + timeoutMs\<close> (lines 397 and 399) of the health probe of a start
  with payload \<open>p\<close> invoked in state \<open>s\<close>: the probe begins one file read (line 438)
  after the configuration file was synchronised (line 431) and lasts 30000 ms. A request
  is issued only before this instant.
\<close>

definition health_deadline :: "env \<Rightarrow> payload \<Rightarrow> state \<Rightarrow> nat" where
  "health_deadline e p s =
     clock (snd (setTelegramEnabledInConfig e
              (resolveConfigPath e
                 (if p_configPath p \<noteq> [] then p_configPath p else ''./config.yaml''))
              (p_telegramEnabled p) (s\<lparr>agentTransitioning := True\<rparr>)))
       + io_time e + 30000"

text \<open>Counters read off a state: agent spawns so far, and children whose exit has not been notified.\<close>

fun is_spawn :: "effect \<Rightarrow> bool" where
  "is_spawn (SpawnAgent cmd args h) = True"
| "is_spawn _ = False"

definition spawn_count :: "state \<Rightarrow> nat" where
  "spawn_count s = length (filter is_spawn (trace s))"

definition live_children :: "state \<Rightarrow> nat" where
  "live_children s = length (filter (\<lambda>c. \<not> exited c) (children s))"

text \<open>The feature flag persisted in the configuration file at a path, if the file is readable.\<close>

definition persisted :: "state \<Rightarrow> string \<Rightarrow> bool option" where
  "persisted s p = map_option doc_telegram_enabled (files s p)"

text \<open>
  The states between operations: the tracked child is running, and the runtime flag is
  off when no child is tracked (lines 360 and 391 reset both together).
\<close>

definition consistent :: "state \<Rightarrow> bool" where
  "consistent s = (tracked_alive s \<and> (agentChild s = None \<longrightarrow> \<not> telegramEnabledRuntime s))"

section \<open>Sample environments\<close>

text \<open>
  Concrete environments and states at which the theorems below are instantiated: a
  child that ignores SIGTERM, a POSIX development environment whose health endpoint
  either answers at once or never, and a configuration file listening on the wildcard
  address.
\<close>

definition sample_child :: child where
  "sample_child =
     \<lparr>pid = Some 4242, exitCode = None, signalCode = None, killed = False, death = None,
      on_term = None, on_kill = Some (0, BySignal SIGKILL), kill_throws = False\<rparr>"

definition sample_env :: "bool \<Rightarrow> env" where
  "sample_env healthy =
     \<lparr>win32 = False, isPackaged = False, existsSync = (\<lambda>p. True), writable = (\<lambda>p. True),
      join = (\<lambda>ps. concat (map (\<lambda>p. ''/'' @ p) ps)), isAbsolute = (\<lambda>p. take 1 p = ''/''),
      projectRoot = ''proj'', resourcesPath = ''res'', userData = ''data'',
      spawned = (\<lambda>n. sample_child), taskkill_time = 0,
      fetch = (\<lambda>u t. if healthy then (RespOk, 5) else (NetError, 30000)),
      io_time = 1\<rparr>"

definition sample_files :: "string \<Rightarrow> doc option" where
  "sample_files =
     (\<lambda>p. if p = ''/data/config.yaml''
          then Some \<lparr>doc_listen = ''0.0.0.0:9108'', doc_telegram_enabled = False\<rparr> else None)"

definition sample_payload :: "bool \<Rightarrow> payload" where
  "sample_payload b = \<lparr>p_binPath = [], p_configPath = [], p_telegramEnabled = b\<rparr>"

text \<open>
  A packaged installation whose bundled binary is missing, while a binary given by the
  caller exists.
\<close>

definition packaged_env :: env where
  "packaged_env = (sample_env True)\<lparr>isPackaged := True, existsSync := (\<lambda>p. p = ''/opt/agent'')\<rparr>"

definition custom_payload :: payload where
  "custom_payload = \<lparr>p_binPath = ''/opt/agent'', p_configPath = [], p_telegramEnabled = False\<rparr>"

text \<open>A child that was terminated by SIGSEGV: its exit was notified, its exit code is null.\<close>

definition crashed_state :: state where
  "crashed_state =
     (initial sample_files)
       \<lparr>children := [sample_child\<lparr>signalCode := Some SIGSEGV, death := Some (0, BySignal SIGSEGV)\<rparr>]\<rparr>"

text \<open>
  An endpoint that answers before time 5, fails from then on, and answers again from
  time \<open>r\<close> on.
\<close>

definition flaky_env :: "nat \<Rightarrow> env" where
  "flaky_env r =
     (sample_env False)\<lparr>fetch := (\<lambda>u t. if t < 5 \<or> r \<le> t then (RespOk, 1) else (NetError, 30000))\<rparr>"


text \<open>An environment whose endpoint answers every request with success after 31 seconds.\<close>

definition late_env :: env where
  "late_env = (sample_env False)\<lparr>fetch := (\<lambda>u t. (RespOk, 31000))\<rparr>"



text \<open>What the sample scenarios report: the result and the observable parts of the state.\<close>

definition outcome ::
  "string \<Rightarrow> result \<times> state \<Rightarrow> result \<times> nat option \<times> bool \<times> bool \<times> bool option \<times> nat \<times> nat" where
  "outcome p rs =
     (case rs of (r, s) \<Rightarrow>
        (r, agentChild s, telegramEnabledRuntime s, agentTransitioning s, persisted s p,
         spawn_count s, live_children s))"

section \<open>The serializer (\<open>withAgentOp\<close>, lines 133--154)\<close>

text \<open>
  An operation \<open>fn\<close> is an async function: a first segment that runs when it is called,
  and the segments that run after each of its awaits on the outside world (a timer, a
  file, a response, a child's exit). It ends fulfilled, or rejected after its last
  segment. Each entry of the chain is one call of \<open>withAgentOp\<close>, in submission order:
  its promise \<open>run\<close> is pending and has not started (\<open>Waiting\<close>), is executing with
  some segments left (\<open>Running\<close>, with the index of the next segment), or is settled.
  \<open>agentOpChain\<close> is the promise \<open>run.catch(() => {})\<close> of the last entry, settled
  (always fulfilled) as soon as that entry's \<open>run\<close> is settled either way; it is
  \<open>Promise.resolve()\<close> while the chain is empty.
\<close>

type_synonym seg = "state \<Rightarrow> state"

record operation =
  op_first :: seg
  op_rest :: "seg list"
  op_rejects :: bool

datatype entry = Waiting operation | Running nat "seg list" bool | Settled bool

fun is_waiting :: "entry \<Rightarrow> bool" where
  "is_waiting (Waiting op) = True"
| "is_waiting _ = False"

fun is_running :: "entry \<Rightarrow> bool" where
  "is_running (Running k fs rej) = True"
| "is_running _ = False"

fun is_settled :: "entry \<Rightarrow> bool" where
  "is_settled (Settled rej) = True"
| "is_settled _ = False"

record sched =
  glob :: state
  chain :: "entry list"
  journal :: "(nat \<times> nat \<times> bool) list"
  replies :: "status_reply list"

definition idle :: "state \<Rightarrow> sched" where
  "idle s = \<lparr>glob = s, chain = [], journal = [], replies = []\<rparr>"

text \<open>
  Segment \<open>k\<close> of entry \<open>i\<close> runs: the journal records it with the value of
  \<open>agentTransitioning\<close> it ran under.
\<close>

definition run_seg :: "nat \<Rightarrow> nat \<Rightarrow> seg \<Rightarrow> sched \<Rightarrow> sched" where
  "run_seg i k f st =
     st\<lparr>glob := f (glob st), journal := journal st @ [(i, k, agentTransitioning (glob st))]\<rparr>"

text \<open>The \<open>finally\<close> block (lines 139--141, 147--149), after which \<open>run\<close> is settled.\<close>

definition settle :: "nat \<Rightarrow> bool \<Rightarrow> sched \<Rightarrow> sched" where
  "settle i rej st =
     st\<lparr>glob := (glob st)\<lparr>agentTransitioning := False\<rparr>, chain := (chain st)[i := Settled rej]\<rparr>"

text \<open>
  The reaction registered by \<open>agentOpChain.then\<close> for entry \<open>i\<close> fires once the promise
  it was chained on is settled: it sets the flag and calls \<open>fn\<close>. Both handlers of
  \<open>then\<close> are the same code, so it does not matter how that promise was settled. When
  \<open>fn\<close> has no await left, the entry settles in the same turn and the reaction of the
  next entry fires.
\<close>

function start_from :: "nat \<Rightarrow> sched \<Rightarrow> sched" where
  "start_from i st =
     (if i < length (chain st) then
        (case chain st ! i of
           Waiting op \<Rightarrow>
             let st1 = run_seg i 0 (op_first op)
                         (st\<lparr>glob := (glob st)\<lparr>agentTransitioning := True\<rparr>\<rparr>)
             in if op_rest op = [] then start_from (Suc i) (settle i (op_rejects op) st1)
                else st1\<lparr>chain := (chain st1)[i := Running 1 (op_rest op) (op_rejects op)]\<rparr>
         | Running k fs rej \<Rightarrow> st
         | Settled rej \<Rightarrow> st)
      else st)"
  by pat_completeness auto
termination
  by (relation "measure (\<lambda>(i, st). length (chain st) - i)")
     (auto simp: settle_def run_seg_def)

declare start_from.simps [simp del]

text \<open>The await of the running entry \<open>i\<close> completes and its next segment runs.\<close>

definition resume :: "nat \<Rightarrow> sched \<Rightarrow> sched" where
  "resume i st =
     (if i < length (chain st) then
        (case chain st ! i of
           Running k fs rej \<Rightarrow>
             (case fs of
                [] \<Rightarrow> st
              | f # fs' \<Rightarrow>
                  let st1 = run_seg i k f st
                  in if fs' = [] then start_from (Suc i) (settle i rej st1)
                     else st1\<lparr>chain := (chain st1)[i := Running (Suc k) fs' rej]\<rparr>)
         | Waiting op \<Rightarrow> st
         | Settled rej \<Rightarrow> st)
      else st)"

text \<open>
  \<open>withAgentOp(fn)\<close>: the new entry is chained on the current \<open>agentOpChain\<close>; its
  reaction fires at once when that promise is already settled.
\<close>

definition withAgentOp :: "operation \<Rightarrow> sched \<Rightarrow> sched" where
  "withAgentOp op st =
     (let n = length (chain st);
          st1 = st\<lparr>chain := chain st @ [Waiting op]\<rparr>
      in if n = 0 \<or> is_settled (chain st ! (n - 1)) then start_from n st1 else st1)"

text \<open>
  The turns of the event loop: a caller submits an operation, an await of entry \<open>i\<close>
  completes, or the status is queried (lines 542--550, not routed through
  \<open>withAgentOp\<close>).
\<close>

datatype event = Submit operation | Resume nat | Status

fun step :: "event \<Rightarrow> sched \<Rightarrow> sched" where
  "step (Submit op) st = withAgentOp op st"
| "step (Resume i) st = resume i st"
| "step Status st = st\<lparr>replies := replies st @ [agent_status (glob st)]\<rparr>"

definition run :: "event list \<Rightarrow> sched \<Rightarrow> sched" where
  "run evs st = fold step evs st"

text \<open>Operations whose segments leave \<open>agentTransitioning\<close> alone (only \<open>withAgentOp\<close> writes it).\<close>

definition keeps_flag :: "seg \<Rightarrow> bool" where
  "keeps_flag f = (\<forall>s. agentTransitioning (f s) = agentTransitioning s)"

definition wf_op :: "operation \<Rightarrow> bool" where
  "wf_op op = (keeps_flag (op_first op) \<and> list_all keeps_flag (op_rest op))"

fun wf_event :: "event \<Rightarrow> bool" where
  "wf_event (Submit op) = wf_op op"
| "wf_event _ = True"

text \<open>Segments are ordered by operation, then by position in the operation.\<close>

definition before :: "nat \<times> nat \<Rightarrow> nat \<times> nat \<Rightarrow> bool" where
  "before a b = (fst a < fst b \<or> fst a = fst b \<and> snd a < snd b)"

definition executed :: "sched \<Rightarrow> (nat \<times> nat) list" where
  "executed st = map (\<lambda>(i, k, b). (i, k)) (journal st)"

text \<open>The number of segments an entry has still to run.\<close>

fun remaining :: "entry \<Rightarrow> nat" where
  "remaining (Waiting op) = Suc (length (op_rest op))"
| "remaining (Running k fs rej) = length fs"
| "remaining (Settled rej) = 0"

definition total :: "sched \<Rightarrow> nat" where
  "total st = sum_list (map remaining (chain st))"

text \<open>
  The shape of the chain between turns. \<open>inv n st\<close>: the entries before \<open>n\<close> are
  settled, entry \<open>n\<close> (if there is one) is running, the entries after it wait; the flag
  is on exactly when an entry is running; every journal line was written under the flag
  and belongs to a settled entry or to the segments the running entry has run; the
  journal is in order. \<open>ready n st\<close> is the shape at the moment the reaction of entry
  \<open>n\<close> fires.
\<close>

fun entry_ok :: "entry \<Rightarrow> bool" where
  "entry_ok (Waiting op) = wf_op op"
| "entry_ok (Running k fs rej) = (fs \<noteq> [] \<and> list_all keeps_flag fs)"
| "entry_ok (Settled rej) = True"

fun next_index :: "entry \<Rightarrow> nat" where
  "next_index (Running k fs rej) = k"
| "next_index _ = 0"

definition journal_ok :: "nat \<Rightarrow> sched \<Rightarrow> bool" where
  "journal_ok n st =
     ((\<forall>(i, k, b) \<in> set (journal st).
          b \<and> (i < n \<or> i = n \<and> n < length (chain st) \<and> k < next_index (chain st ! n)))
      \<and> sorted_wrt before (executed st))"

definition inv :: "nat \<Rightarrow> sched \<Rightarrow> bool" where
  "inv n st =
     (n \<le> length (chain st)
      \<and> (\<forall>j < n. is_settled (chain st ! j))
      \<and> (\<forall>j. n < j \<longrightarrow> j < length (chain st) \<longrightarrow> is_waiting (chain st ! j))
      \<and> (n < length (chain st) \<longrightarrow> is_running (chain st ! n))
      \<and> list_all entry_ok (chain st)
      \<and> agentTransitioning (glob st) = (n < length (chain st))
      \<and> journal_ok n st)"

definition ready :: "nat \<Rightarrow> sched \<Rightarrow> bool" where
  "ready n st =
     (n \<le> length (chain st)
      \<and> (\<forall>j < n. is_settled (chain st ! j))
      \<and> (\<forall>j. n \<le> j \<longrightarrow> j < length (chain st) \<longrightarrow> is_waiting (chain st ! j))
      \<and> list_all entry_ok (chain st)
      \<and> \<not> agentTransitioning (glob st)
      \<and> (\<forall>(i, k, b) \<in> set (journal st). b \<and> i < n)
      \<and> sorted_wrt before (executed st))"

text \<open>The segments an event submits, and the operations a list of events submits.\<close>

fun cost :: "event \<Rightarrow> nat" where
  "cost (Submit op) = Suc (length (op_rest op))"
| "cost _ = 0"

fun is_submit :: "event \<Rightarrow> bool" where
  "is_submit (Submit op) = True"
| "is_submit _ = False"



section \<open>Every state the globals can be in\<close>

text \<open>
  The writes to the globals and to the child objects, one rule per place in the source,
  in any order and any number of times: time passes and due exit notifications run
  their listener (lines 356--363); a child is spawned and tracked (lines 433--436); a
  signal or a taskkill is sent (lines 371--382); the \<open>finally\<close> block of
  \<open>stopAgentProcess\<close> runs for the child it captured (lines 388--393); the handler
  of \<open>agent:start\<close> catches (line 522); the base URL, the transitioning flag, the
  files and the trace are written. Every state an operation goes through, also one
  that overlaps with the unserialized stop of \<open>before-quit\<close> (line 496), is reachable
  by these rules.
\<close>

inductive reach :: "env \<Rightarrow> state \<Rightarrow> bool" for e :: env where
  reach_initial: "reach e (initial fs)"
| reach_time: "reach e s \<Longrightarrow> reach e (advance d s)"
| reach_spawn:
    "reach e s \<Longrightarrow>
     reach e ((snd (spawn e cmd args s))
                \<lparr>agentChild := Some (fst (spawn e cmd args s)), telegramEnabledRuntime := b\<rparr>)"
| reach_kill: "reach e s \<Longrightarrow> kill h sg s = Inl s' \<or> kill h sg s = Inr s' \<Longrightarrow> reach e s'"
| reach_taskkill: "reach e s \<Longrightarrow> reach e (taskkill h s)"
| reach_finally: "reach e s \<Longrightarrow> reach e (stop_finally h s)"
| reach_catch: "reach e s \<Longrightarrow> reach e (s\<lparr>agentChild := None\<rparr>)"
| reach_url: "reach e s \<Longrightarrow> reach e (s\<lparr>backendBaseUrlRuntime := u\<rparr>)"
| reach_flag: "reach e s \<Longrightarrow> reach e (s\<lparr>agentTransitioning := b\<rparr>)"
| reach_files: "reach e s \<Longrightarrow> reach e (s\<lparr>files := fs\<rparr>)"
| reach_trace: "reach e s \<Longrightarrow> reach e (s\<lparr>trace := tr\<rparr>)"

text \<open>
  Segments, operations and chains that stay within the reachable states: every segment
  still to run takes a reachable state to a reachable one.
\<close>

definition keeps_reach :: "env \<Rightarrow> seg \<Rightarrow> bool" where
  "keeps_reach e f = (\<forall>s. reach e s \<longrightarrow> reach e (f s))"

definition reach_op :: "env \<Rightarrow> operation \<Rightarrow> bool" where
  "reach_op e op = (keeps_reach e (op_first op) \<and> list_all (keeps_reach e) (op_rest op))"

fun reach_event :: "env \<Rightarrow> event \<Rightarrow> bool" where
  "reach_event e (Submit op) = reach_op e op"
| "reach_event e _ = True"

fun segs :: "entry \<Rightarrow> seg list" where
  "segs (Waiting op) = op_first op # op_rest op"
| "segs (Running k fs rej) = fs"
| "segs (Settled rej) = []"

definition reach_sched :: "env \<Rightarrow> sched \<Rightarrow> bool" where
  "reach_sched e st =
     (reach e (glob st) \<and> list_all (\<lambda>x. list_all (keeps_reach e) (segs x)) (chain st))"

text \<open>
  Sample operations on the simulation: the body of a handler run as one segment (the
  time its awaits take passes inside the segment), and an operation that awaits once for
  seven seconds and then rejects.
\<close>

definition atomic_op :: "(state \<Rightarrow> result \<times> state) \<Rightarrow> operation" where
  "atomic_op fn = \<lparr>op_first = (\<lambda>s. snd (fn s)), op_rest = [], op_rejects = False\<rparr>"

definition slow_op :: operation where
  "slow_op = \<lparr>op_first = advance 1, op_rest = [advance 7000], op_rejects = True\<rparr>"

section \<open>Properties of \<open>resolveBackendBaseUrl\<close>\<close>

lemma filter_rev_upt_none:
  "(\<And>i. i < n \<Longrightarrow> \<not> P i) \<Longrightarrow> filter P (rev [0..<n]) = []"
  by (simp add: filter_empty_conv)

lemma filter_rev_upt_last:
  "k < n \<Longrightarrow> P k \<Longrightarrow> (\<And>i. k < i \<Longrightarrow> i < n \<Longrightarrow> \<not> P i) \<Longrightarrow>
   \<exists>rest. filter P (rev [0..<n]) = k # rest"
proof (induction n)
  case 0
  then show ?case by simp
next
  case (Suc n)
  show ?case
  proof (cases "k = n")
    case True
    with Suc.prems show ?thesis by simp
  next
    case False
    with Suc.prems have kn: "k < n" by simp
    have "\<not> P n" using Suc.prems(3)[of n] kn by simp
    moreover have "\<exists>rest. filter P (rev [0..<n]) = k # rest"
      using Suc.IH[OF kn Suc.prems(2)] Suc.prems(3) by simp
    ultimately show ?thesis by simp
  qed
qed

lemma lastIndexOf_none:
  assumes "\<And>i. take (length p) (drop i s) \<noteq> p"
  shows "lastIndexOf s p = - 1"
  using assms by (simp add: lastIndexOf_def filter_empty_conv)

lemma lastIndexOf_at:
  assumes "k \<le> length s" and "take (length p) (drop k s) = p"
    and "\<And>i. k < i \<Longrightarrow> take (length p) (drop i s) \<noteq> p"
  shows "lastIndexOf s p = int k"
proof -
  obtain rest where
    "filter (\<lambda>i. take (length p) (drop i s) = p) (rev [0..<Suc (length s)]) = k # rest"
    using filter_rev_upt_last[of k "Suc (length s)" "\<lambda>i. take (length p) (drop i s) = p"] assms
    by auto
  then show ?thesis by (simp add: lastIndexOf_def)
qed

lemma occurs_colon: "take (Suc 0) (drop i s) = [c] \<Longrightarrow> c \<in> set s"
  by (metis in_set_dropD in_set_takeD list.set_intros(1))

lemma occurs_second: "take (Suc (Suc 0)) (drop i s) = [a, c] \<Longrightarrow> c \<in> set s"
  by (metis in_set_dropD in_set_takeD list.set_intros(1) list.set_intros(2))

lemma lastIndexOf_colon_none:
  "CHR '':'' \<notin> set s \<Longrightarrow> lastIndexOf s '':'' = - 1"
  by (rule lastIndexOf_none) (auto dest: occurs_colon)

lemma lastIndexOf_bracket_none:
  "CHR '':'' \<notin> set s \<Longrightarrow> lastIndexOf s '']:'' = - 1"
  by (rule lastIndexOf_none) (auto dest: occurs_second simp: numeral_2_eq_2)

lemma set_trim: "set (trim s) \<subseteq> set s"
  unfolding trim_def by (metis set_dropWhileD set_rev subsetI)

lemma trim_id:
  assumes "s \<noteq> []" "\<not> js_space (hd s)" "\<not> js_space (last s)"
  shows "trim s = s"
proof -
  have a: "dropWhile js_space s = s" using assms by (simp add: dropWhile_eq_self_iff)
  have b: "dropWhile js_space (rev s) = rev s"
    using assms by (simp add: dropWhile_eq_self_iff hd_rev)
  show ?thesis by (simp add: trim_def a b)
qed

lemma not_occurs_lastIndexOf:
  assumes "p \<noteq> []" "\<not> occurs p s"
  shows "lastIndexOf s p = - 1"
proof (rule lastIndexOf_none)
  fix i
  show "take (length p) (drop i s) \<noteq> p"
  proof (cases "i \<le> length s")
    case True
    with assms(2) show ?thesis by (auto simp: occurs_def list_ex_iff)
  next
    case False
    with assms(1) show ?thesis by auto
  qed
qed


lemma resolve_core_plain:
  assumes "trim listen = raw" "raw \<noteq> []" "\<not> startsWith raw ''[''"
    and "lastIndexOf raw '':'' = int k" "0 < k"
  shows "resolveBackendBaseUrl listen =
         ''http://'' @ (if take k raw = [] \<or> take k raw = ''0.0.0.0'' \<or> take k raw = ''::''
                        then ''127.0.0.1'' else take k raw) @ '':'' @ drop (Suc k) raw"
  using assms by (simp add: resolveBackendBaseUrl_def slice_def sliceFrom_def Let_def nat_add_distrib)

lemma resolve_core_bracket:
  assumes "trim listen = raw" "raw \<noteq> []" "startsWith raw ''[''"
    and "lastIndexOf raw '']:'' = int k" "0 < k"
  shows "resolveBackendBaseUrl listen =
         ''http://'' @ (if take (k - 1) (drop 1 raw) = [] \<or> take (k - 1) (drop 1 raw) = ''0.0.0.0''
                           \<or> take (k - 1) (drop 1 raw) = ''::''
                        then ''127.0.0.1'' else take (k - 1) (drop 1 raw)) @ '':'' @ drop (k + 2) raw"
  using assms by (simp add: resolveBackendBaseUrl_def slice_def sliceFrom_def Let_def nat_add_distrib)

lemma lastIndexOf_colon_app:
  assumes "CHR '':'' \<notin> set port"
  shows "lastIndexOf (h @ '':'' @ port) '':'' = int (length h)"
proof (rule lastIndexOf_at)
  fix i assume "length h < i"
  then obtain j where "i = Suc (length h + j)" using less_imp_Suc_add by blast
  then have D: "drop i (h @ '':'' @ port) = drop j port" by simp
  have "take (Suc 0) (drop j port) \<noteq> '':''"
    using assms occurs_colon[of j port "CHR '':''"] by blast
  then show "take (length '':'') (drop i (h @ '':'' @ port)) \<noteq> '':''"
    unfolding D by simp
qed simp_all

lemma lastIndexOf_bracket_app:
  assumes "CHR '':'' \<notin> set port"
  shows "lastIndexOf (''['' @ h @ '']:'' @ port) '']:'' = int (Suc (length h))"
proof (rule lastIndexOf_at)
  fix i assume "Suc (length h) < i"
  then obtain j where "i = Suc (Suc (length h + j))" using less_imp_Suc_add by blast
  then have D: "drop i (''['' @ h @ '']:'' @ port) = drop j ('':'' @ port)" by simp
  have "take (Suc (Suc 0)) (drop j ('':'' @ port)) \<noteq> '']:''"
  proof (cases j)
    case 0
    then show ?thesis by simp
  next
    case (Suc k)
    then show ?thesis
      using assms occurs_second[of k port "CHR '']''" "CHR '':''"] by auto
  qed
  then show "take (length '']:'') (drop i (''['' @ h @ '']:'' @ port)) \<noteq> '']:''"
    unfolding D by simp
qed simp_all

lemma trim_app:
  assumes "\<not> js_space a" "\<forall>c\<in>set port. \<not> js_space c"
  shows "trim (a # h @ '':'' @ port) = a # h @ '':'' @ port"
proof (rule trim_id)
  have "\<not> js_space (CHR '':'')" by (simp add: js_space_def)
  then show "\<not> js_space (last (a # h @ '':'' @ port))"
    using assms(2) by (cases "port = []") simp_all
qed (use assms in simp_all)

lemma resolve_plain:
  assumes h: "h \<noteq> []" "hd h \<noteq> CHR ''[''" "\<not> js_space (hd h)"
    and p: "CHR '':'' \<notin> set port" "\<forall>c\<in>set port. \<not> js_space c"
  shows "resolveBackendBaseUrl (h @ '':'' @ port) =
         ''http://'' @ (if h = ''0.0.0.0'' \<or> h = ''::'' then ''127.0.0.1'' else h) @ '':'' @ port"
proof -
  obtain a h' where hh: "h = a # h'" using h(1) by (cases h) auto
  have tr: "trim (h @ '':'' @ port) = h @ '':'' @ port"
    unfolding hh using trim_app[of a port h'] h(3) p(2) hh by simp
  have sw: "\<not> startsWith (h @ '':'' @ port) ''[''"
    using h(2) by (simp add: startsWith_def hh)
  have ne: "h @ '':'' @ port \<noteq> []" by simp
  have len: "0 < length h" using h(1) by simp
  show ?thesis
    using resolve_core_plain[OF tr ne sw lastIndexOf_colon_app[OF p(1)] len] h(1) by simp
qed

lemma resolve_bracket:
  assumes p: "CHR '':'' \<notin> set port" "\<forall>c\<in>set port. \<not> js_space c"
  shows "resolveBackendBaseUrl (''['' @ h @ '']:'' @ port) =
         ''http://'' @ (if h = [] \<or> h = ''0.0.0.0'' \<or> h = ''::'' then ''127.0.0.1'' else h)
           @ '':'' @ port"
proof -
  have sp: "\<not> js_space (CHR ''['')" by (simp add: js_space_def)
  have tr: "trim (''['' @ h @ '']:'' @ port) = ''['' @ h @ '']:'' @ port"
    using trim_app[of "CHR ''[''" port "h @ '']''"] sp p(2) by simp
  have sw: "startsWith (''['' @ h @ '']:'' @ port) ''[''" by (simp add: startsWith_def)
  have ne: "''['' @ h @ '']:'' @ port \<noteq> []" by simp
  show ?thesis
    using resolve_core_bracket[OF tr ne sw lastIndexOf_bracket_app[OF p(1)]] by simp
qed
text \<open>
  Claim C8, as amended. For a port without colon and white space: the IPv4 wildcard
  \<open>0.0.0.0:port\<close> and the IPv6 wildcard \<open>[::]:port\<close> are both mapped to the IPv4
  loopback \<open>http://127.0.0.1:port\<close>; every other non-empty host written without
  brackets is kept unchanged with its port.
\<close>

theorem resolveBackendBaseUrl_wildcard_loopback:
  assumes "CHR '':'' \<notin> set port" and "\<forall>c\<in>set port. \<not> js_space c"
  shows "resolveBackendBaseUrl (''0.0.0.0:'' @ port) = ''http://127.0.0.1:'' @ port
       \<and> resolveBackendBaseUrl (''[::]:'' @ port) = ''http://127.0.0.1:'' @ port
       \<and> (host \<noteq> [] \<and> hd host \<noteq> CHR ''['' \<and> \<not> js_space (hd host)
            \<and> host \<noteq> ''0.0.0.0'' \<and> host \<noteq> ''::''
          \<longrightarrow> resolveBackendBaseUrl (host @ '':'' @ port) = ''http://'' @ host @ '':'' @ port)"
proof -
  have a: "resolveBackendBaseUrl (''0.0.0.0:'' @ port) = ''http://127.0.0.1:'' @ port"
    using resolve_plain[of "''0.0.0.0''" port] assms by (simp add: js_space_def)
  have b: "resolveBackendBaseUrl (''[::]:'' @ port) = ''http://127.0.0.1:'' @ port"
    using resolve_bracket[of port "''::''"] assms by simp
  have c: "resolveBackendBaseUrl (host @ '':'' @ port) = ''http://'' @ host @ '':'' @ port"
    if "host \<noteq> []" "hd host \<noteq> CHR ''[''" "\<not> js_space (hd host)"
       "host \<noteq> ''0.0.0.0''" "host \<noteq> ''::''"
    using resolve_plain[of host port] assms that by simp
  show ?thesis using a b c by blast
qed

text \<open>
  Claim C10. A listen string that, once trimmed, has no host:port separator (a bare host
  name, an empty or blank string, a bracketed host without \<open>]:\<close>) yields the default
  base address \<open>http://127.0.0.1:9108\<close>: the configured host is discarded.
\<close>

theorem resolveBackendBaseUrl_no_separator_default:
  assumes "no_separator (trim listen)"
  shows "resolveBackendBaseUrl listen = ''http://127.0.0.1:9108''"
proof (cases "startsWith (trim listen) ''[''")
  case True
  with assms have "lastIndexOf (trim listen) '']:'' = - 1"
    by (intro not_occurs_lastIndexOf) (auto simp: no_separator_def)
  with True show ?thesis by (simp add: resolveBackendBaseUrl_def Let_def)
next
  case False
  with assms have "lastIndexOf (trim listen) '':'' = - 1"
    by (intro lastIndexOf_colon_none) (auto simp: no_separator_def)
  with False show ?thesis by (simp add: resolveBackendBaseUrl_def Let_def)
qed


text \<open>The hypotheses of C8 hold at port \<open>9108\<close> and hosts \<open>192.168.1.5\<close>, \<open>localhost\<close>.\<close>

theorem resolveBackendBaseUrl_wildcard_loopback_witness:
  "resolveBackendBaseUrl ''0.0.0.0:9108'' = ''http://127.0.0.1:9108''
   \<and> resolveBackendBaseUrl ''[::]:9108'' = ''http://127.0.0.1:9108''
   \<and> resolveBackendBaseUrl ''192.168.1.5:9108'' = ''http://192.168.1.5:9108''
   \<and> resolveBackendBaseUrl ''localhost:9108'' = ''http://localhost:9108''"
proof -
  have p: "CHR '':'' \<notin> set ''9108''" "\<forall>c\<in>set ''9108''. \<not> js_space c"
    by (simp_all add: js_space_def)
  show ?thesis
    using resolveBackendBaseUrl_wildcard_loopback[OF p, of "''192.168.1.5''"] resolveBackendBaseUrl_wildcard_loopback[OF p, of "''localhost''"]
    by (simp add: js_space_def)
qed

text \<open>
  Claim C8 as stated fails: the IPv6 wildcard \<open>[::]:9108\<close> is not mapped to the IPv6
  loopback \<open>http://[::1]:9108\<close> but to the IPv4 loopback (line 307 replaces the host
  \<open>::\<close> by \<open>127.0.0.1\<close>).
\<close>

theorem resolveBackendBaseUrl_ipv6_wildcard_counterexample:
  "resolveBackendBaseUrl ''[::]:9108'' = ''http://127.0.0.1:9108''
   \<and> resolveBackendBaseUrl ''[::]:9108'' \<noteq> ''http://[::1]:9108''"
  by (simp add: resolveBackendBaseUrl_def trim_def js_space_def startsWith_def lastIndexOf_def
      slice_def sliceFrom_def)

text \<open>The hypothesis of C10 holds at \<open>localhost\<close>, at a blank string and at \<open>[::1]\<close>.\<close>

theorem resolveBackendBaseUrl_no_separator_default_witness:
  "no_separator (trim ''localhost'') \<and> resolveBackendBaseUrl ''localhost'' = ''http://127.0.0.1:9108''
   \<and> no_separator (trim ''   '') \<and> resolveBackendBaseUrl ''   '' = ''http://127.0.0.1:9108''
   \<and> no_separator (trim ''[::1]'') \<and> resolveBackendBaseUrl ''[::1]'' = ''http://127.0.0.1:9108''"
proof -
  have a: "no_separator (trim ''localhost'')"
    by (simp add: no_separator_def trim_def js_space_def startsWith_def)
  have b: "no_separator (trim ''   '')"
    by (simp add: no_separator_def trim_def js_space_def startsWith_def)
  have c: "no_separator (trim ''[::1]'')"
    by (simp add: no_separator_def trim_def js_space_def startsWith_def occurs_def)
  show ?thesis using a b c resolveBackendBaseUrl_no_separator_default[OF a] resolveBackendBaseUrl_no_separator_default[OF b] resolveBackendBaseUrl_no_separator_default[OF c] by simp
qed

section \<open>Frame lemmas\<close>

lemma exit_event_frame [simp]:
  "clock (exit_event h s) = clock s"
  "trace (exit_event h s) = trace s"
  "files (exit_event h s) = files s"
  "backendBaseUrlRuntime (exit_event h s) = backendBaseUrlRuntime s"
  "agentTransitioning (exit_event h s) = agentTransitioning s"
  "length (children (exit_event h s)) = length (children s)"
  by (simp_all add: exit_event_def attachAgentLifecycle_def)

lemma fold_exit_event_frame [simp]:
  "clock (fold exit_event hs s) = clock s"
  "trace (fold exit_event hs s) = trace s"
  "files (fold exit_event hs s) = files s"
  "backendBaseUrlRuntime (fold exit_event hs s) = backendBaseUrlRuntime s"
  "agentTransitioning (fold exit_event hs s) = agentTransitioning s"
  "length (children (fold exit_event hs s)) = length (children s)"
  by (induction hs arbitrary: s; simp)+

lemma exit_event_children:
  "children (exit_event h s) = (children s)[h := emit_exit (children s ! h)]"
  by (simp add: exit_event_def attachAgentLifecycle_def)

lemma exit_event_agentChild:
  "agentChild (exit_event h s) = (if agentChild s = Some h then None else agentChild s)"
  by (simp add: exit_event_def attachAgentLifecycle_def)

lemma exit_event_flag:
  "telegramEnabledRuntime (exit_event h s) =
     (if agentChild s = Some h then False else telegramEnabledRuntime s)"
  by (simp add: exit_event_def attachAgentLifecycle_def)

lemma fold_exit_event_nth:
  "distinct hs \<Longrightarrow> k < length (children s) \<Longrightarrow>
   children (fold exit_event hs s) ! k =
     (if k \<in> set hs then emit_exit (children s ! k) else children s ! k)"
proof (induction hs arbitrary: s)
  case Nil
  then show ?case by simp
next
  case (Cons h hs)
  from Cons.prems have d: "h \<notin> set hs" "distinct hs" by simp_all
  have k: "k < length (children (exit_event h s))" using Cons.prems by simp
  have "children (exit_event h s) ! k =
          (if k = h then emit_exit (children s ! k) else children s ! k)"
    using Cons.prems by (simp add: exit_event_children nth_list_update)
  with Cons.IH[OF d(2) k] d(1) show ?case by auto
qed

lemma fold_exit_event_agentChild:
  "agentChild (fold exit_event hs s) =
     (case agentChild s of None \<Rightarrow> None | Some h \<Rightarrow> if h \<in> set hs then None else Some h)"
  by (induction hs arbitrary: s) (auto simp: exit_event_agentChild split: option.splits)

lemma fold_exit_event_flag:
  "telegramEnabledRuntime (fold exit_event hs s) =
     (case agentChild s of
        None \<Rightarrow> telegramEnabledRuntime s
      | Some h \<Rightarrow> if h \<in> set hs then False else telegramEnabledRuntime s)"
proof (induction hs arbitrary: s)
  case Nil
  then show ?case by (simp split: option.splits)
next
  case (Cons a hs)
  show ?case
    by (simp add: Cons.IH exit_event_agentChild exit_event_flag split: option.splits)
qed

lemma deliver_frame [simp]:
  "clock (deliver s) = clock s"
  "trace (deliver s) = trace s"
  "files (deliver s) = files s"
  "backendBaseUrlRuntime (deliver s) = backendBaseUrlRuntime s"
  "agentTransitioning (deliver s) = agentTransitioning s"
  "length (children (deliver s)) = length (children s)"
  by (simp_all add: deliver_def)

lemma deliver_nth:
  "k < length (children s) \<Longrightarrow>
   children (deliver s) ! k =
     (if due (clock s) (children s ! k) then emit_exit (children s ! k) else children s ! k)"
  by (simp add: deliver_def fold_exit_event_nth)

lemma deliver_agentChild:
  "agentChild (deliver s) =
     (case agentChild s of
        None \<Rightarrow> None
      | Some h \<Rightarrow> if h < length (children s) \<and> due (clock s) (children s ! h) then None else Some h)"
  by (simp add: deliver_def fold_exit_event_agentChild split: option.splits)

lemma deliver_flag:
  "telegramEnabledRuntime (deliver s) =
     (case agentChild s of
        None \<Rightarrow> telegramEnabledRuntime s
      | Some h \<Rightarrow> if h < length (children s) \<and> due (clock s) (children s ! h) then False
                  else telegramEnabledRuntime s)"
  by (simp add: deliver_def fold_exit_event_flag split: option.splits)

lemma advance_frame [simp]:
  "clock (advance d s) = clock s + d"
  "trace (advance d s) = trace s"
  "files (advance d s) = files s"
  "backendBaseUrlRuntime (advance d s) = backendBaseUrlRuntime s"
  "agentTransitioning (advance d s) = agentTransitioning s"
  "length (children (advance d s)) = length (children s)"
  by (simp_all add: advance_def)

lemma advance_nth:
  "k < length (children s) \<Longrightarrow>
   children (advance d s) ! k =
     (if due (clock s + d) (children s ! k) then emit_exit (children s ! k) else children s ! k)"
  by (simp add: advance_def deliver_nth)

lemma advance_agentChild:
  "agentChild (advance d s) =
     (case agentChild s of
        None \<Rightarrow> None
      | Some h \<Rightarrow> if h < length (children s) \<and> due (clock s + d) (children s ! h) then None
                  else Some h)"
  by (simp add: advance_def deliver_agentChild split: option.splits)

lemma advance_flag:
  "telegramEnabledRuntime (advance d s) =
     (case agentChild s of
        None \<Rightarrow> telegramEnabledRuntime s
      | Some h \<Rightarrow> if h < length (children s) \<and> due (clock s + d) (children s ! h) then False
                  else telegramEnabledRuntime s)"
  by (simp add: advance_def deliver_flag split: option.splits)

lemma exited_emit_exit: "due t c \<Longrightarrow> exited (emit_exit c)"
  by (auto simp: due_def emit_exit_def exited_def split: option.splits ending.splits)

lemma emit_exit_static [simp]:
  "pid (emit_exit c) = pid c" "killed (emit_exit c) = killed c" "death (emit_exit c) = death c"
  "on_term (emit_exit c) = on_term c" "on_kill (emit_exit c) = on_kill c"
  "kill_throws (emit_exit c) = kill_throws c"
  by (simp_all add: emit_exit_def split: option.splits ending.splits)

lemma exited_emit_exit_mono: "exited c \<Longrightarrow> exited (emit_exit c)"
  by (auto simp: emit_exit_def exited_def split: option.splits ending.splits)

lemma passes_refl: "tracked_alive s \<Longrightarrow> passes s s"
  by (auto simp: passes_def tracked_alive_def split: option.splits)

lemma passes_trans:
  assumes "passes s s'" "passes s' s''"
  shows "passes s s''"
proof -
  have len: "length (children s') = length (children s)" using assms(1) by (simp add: passes_def)
  have ex: "\<forall>k < length (children s). exited (children s ! k) \<longrightarrow> exited (children s'' ! k)"
    using assms len by (simp add: passes_def)
  have tr: "\<exists>tr. trace s'' = trace s @ tr"
    using assms by (auto simp: passes_def)
  have pd: "\<forall>k < length (children s). pid (children s'' ! k) = pid (children s ! k)"
    using assms len by (simp add: passes_def)
  have tk: "(case agentChild s of
            None \<Rightarrow> agentChild s'' = None \<and> telegramEnabledRuntime s'' = telegramEnabledRuntime s
          | Some h \<Rightarrow>
              h < length (children s) \<and>
              (agentChild s'' = Some h \<and> telegramEnabledRuntime s'' = telegramEnabledRuntime s
                 \<and> \<not> exited (children s'' ! h)
               \<or> agentChild s'' = None \<and> \<not> telegramEnabledRuntime s''
                 \<and> exited (children s'' ! h)))"
  proof (cases "agentChild s")
    case None
    with assms show ?thesis by (auto simp: passes_def)
  next
    case (Some h)
    with assms(1) have h: "h < length (children s)" by (simp add: passes_def)
    from Some assms(1) consider
        (a) "agentChild s' = Some h" "telegramEnabledRuntime s' = telegramEnabledRuntime s"
      | (b) "agentChild s' = None" "\<not> telegramEnabledRuntime s'" "exited (children s' ! h)"
      by (auto simp: passes_def)
    then show ?thesis
    proof cases
      case a
      with assms(2) Some h show ?thesis by (auto simp: passes_def)
    next
      case b
      with assms(2) Some h len show ?thesis by (auto simp: passes_def)
    qed
  qed
  show ?thesis
    unfolding passes_def using assms len ex tr tk pd by (simp add: passes_def)
qed

lemma passes_tracked_alive: "passes s s' \<Longrightarrow> tracked_alive s'"
  by (auto simp: passes_def tracked_alive_def split: option.splits)

lemma passes_advance:
  assumes "tracked_alive s"
  shows "passes s (advance d s)"
proof -
  have ex: "\<forall>k < length (children s). exited (children s ! k) \<longrightarrow> exited (children (advance d s) ! k)"
    by (simp add: advance_nth exited_emit_exit_mono)
  have tk: "(case agentChild s of
            None \<Rightarrow> agentChild (advance d s) = None
               \<and> telegramEnabledRuntime (advance d s) = telegramEnabledRuntime s
          | Some h \<Rightarrow>
              h < length (children s) \<and>
              (agentChild (advance d s) = Some h
                 \<and> telegramEnabledRuntime (advance d s) = telegramEnabledRuntime s
                 \<and> \<not> exited (children (advance d s) ! h)
               \<or> agentChild (advance d s) = None \<and> \<not> telegramEnabledRuntime (advance d s)
                 \<and> exited (children (advance d s) ! h)))"
    using assms
    by (auto simp: tracked_alive_def advance_agentChild advance_flag advance_nth exited_emit_exit
        split: option.splits)
  have pd: "\<forall>k < length (children s). pid (children (advance d s) ! k) = pid (children s ! k)"
    by (simp add: advance_nth)
  show ?thesis unfolding passes_def using ex tk pd by simp
qed

lemma exited_schedule [simp]: "exited (schedule t r c) = exited c"
  by (simp add: schedule_def exited_def split: option.splits prod.splits)

lemma exited_killed_update [simp]: "exited (c\<lparr>killed := b\<rparr>) = exited c"
  by (simp add: exited_def)

lemma exited_nth_update:
  "exited c' = exited (xs ! k) \<Longrightarrow> exited (xs[k := c'] ! j) = exited (xs ! j)"
  by (cases "k < length xs"; cases "j = k"; simp add: list_update_beyond)

lemma pid_nth_update:
  "pid c' = pid (xs ! k) \<Longrightarrow> pid (xs[k := c'] ! j) = pid (xs ! j)"
  by (cases "k < length xs"; cases "j = k"; simp add: list_update_beyond)

lemma pid_schedule [simp]: "pid (schedule t r c) = pid c"
  by (simp add: schedule_def split: option.splits prod.splits)

lemma passes_update:
  assumes "tracked_alive s" "exited c' = exited (children s ! k)" "pid c' = pid (children s ! k)"
  shows "passes s (s\<lparr>children := (children s)[k := c'], trace := trace s @ tr\<rparr>)"
  using assms exited_nth_update[OF assms(2)] pid_nth_update[OF assms(3)]
  by (auto simp: passes_def tracked_alive_def split: option.splits)

lemma passes_trace:
  assumes "tracked_alive s"
  shows "passes s (s\<lparr>trace := trace s @ tr\<rparr>)"
  using assms by (auto simp: passes_def tracked_alive_def split: option.splits)

lemma kill_cases:
  "kill h sg s = Inl (s\<lparr>trace := trace s @ [Kill h sg]\<rparr>)
   \<or> kill h sg s = Inr (s\<lparr>trace := trace s @ [Kill h sg]\<rparr>)
   \<or> kill h sg s = Inr (s\<lparr>children := (children s)[h := schedule (clock s) (reaction sg (children s ! h))
                                ((children s ! h)\<lparr>killed := True\<rparr>)],
                           trace := trace s @ [Kill h sg]\<rparr>)"
  by (auto simp: kill_def Let_def)

lemma passes_kill:
  assumes "tracked_alive s" "kill h sg s = Inl s' \<or> kill h sg s = Inr s'"
  shows "passes s s'"
  using kill_cases[of h sg s] assms passes_trace[OF assms(1), of "[Kill h sg]"]
    passes_update[OF assms(1), of "schedule (clock s) (reaction sg (children s ! h))
      ((children s ! h)\<lparr>killed := True\<rparr>)" h "[Kill h sg]"]
  by auto

lemma kill_trace:
  assumes "kill h sg s = Inl s' \<or> kill h sg s = Inr s'"
  shows "trace s' = trace s @ [Kill h sg]"
  using kill_cases[of h sg s] assms by auto

lemma passes_taskkill:
  assumes "tracked_alive s"
  shows "passes s (taskkill h s)"
  unfolding taskkill_def Let_def
  using passes_update[OF assms, of "schedule (clock s) (on_kill (children s ! h)) (children s ! h)" h]
  by simp

lemma passes_waitFor:
  assumes "tracked_alive s"
  shows "passes s (waitFor ev t s)"
  unfolding waitFor_def by (rule passes_advance[OF assms])

lemma passes_waitForExit:
  assumes "tracked_alive s"
  shows "passes s (waitForExit h t s)"
  unfolding waitForExit_def Let_def
  using passes_waitFor[OF assms] passes_refl[OF assms] by simp

lemma passes_readListenFromConfig:
  assumes "tracked_alive s"
  shows "passes s (snd (readListenFromConfig e p s))"
  unfolding readListenFromConfig_def Let_def
  using passes_advance[OF assms, of "io_time e"] by (simp split: option.splits)

lemma passes_waitForBackendReady_loop:
  "tracked_alive s \<Longrightarrow> passes s (snd (waitForBackendReady_loop e u h t0 tm s))"
proof (induction e u h t0 tm s rule: waitForBackendReady_loop.induct)
  case (1 e baseUrl h startedAt timeoutMs s)
  let ?s0 = "s\<lparr>trace := trace s @ [Fetch (baseUrl @ ''/healthz'') (clock s)]\<rparr>"
  obtain r d where f: "fetch e (baseUrl @ ''/healthz'') (clock s) = (r, d)" by fastforce
  let ?s1 = "advance d ?s0"
  have p0: "passes s ?s0" by (rule passes_trace[OF "1.prems"])
  have p1: "passes s ?s1"
    by (rule passes_trans[OF p0 passes_advance[OF passes_tracked_alive[OF p0]]])
  have a1: "tracked_alive ?s1" by (rule passes_tracked_alive[OF p1])
  have p2: "passes s (advance 150 ?s1)"
    by (rule passes_trans[OF p1 passes_advance[OF a1]])
  show ?case
  proof (cases "clock s - startedAt < timeoutMs \<and> exitCode (children s ! h) = None \<and> r \<noteq> RespOk")
    case True
    then have "passes (advance 150 ?s1)
                 (snd (waitForBackendReady_loop e baseUrl h startedAt timeoutMs (advance 150 ?s1)))"
      using "1.IH"[OF _ _ f[symmetric] refl] passes_tracked_alive[OF p2] by simp
    then show ?thesis
      using True f passes_trans[OF p2]
      by (subst waitForBackendReady_loop.simps) (simp add: Let_def)
  next
    case False
    then show ?thesis
      using f p1 passes_refl[OF "1.prems"]
      by (subst waitForBackendReady_loop.simps) (auto simp: Let_def)
  qed
qed

lemma passes_waitForBackendReady:
  "tracked_alive s \<Longrightarrow> passes s (snd (waitForBackendReady e u h tm s))"
  unfolding waitForBackendReady_def by (rule passes_waitForBackendReady_loop)

lemma stopAgentProcess_None: "agentChild s = None \<Longrightarrow> stopAgentProcess e s = (True, s)"
  by (simp add: stopAgentProcess_def)

lemma stop_tail_passes:
  assumes "tracked_alive s1"
    and "(let s2 = waitForExit h 7000 s1 in
          if exitCode (children s2 ! h) = None \<and> \<not> killed (children s2 ! h)
          then (case kill h SIGKILL s2 of
                  Inl s3 \<Rightarrow> (False, s3)
                | Inr s3 \<Rightarrow> (True, waitForExit h 2000 s3))
          else (True, s2)) = (r, s'')"
  shows "passes s1 s''"
proof -
  let ?s2 = "waitForExit h 7000 s1"
  have p2: "passes s1 ?s2" by (rule passes_waitForExit[OF assms(1)])
  have a2: "tracked_alive ?s2" by (rule passes_tracked_alive[OF p2])
  show ?thesis
  proof (cases "exitCode (children ?s2 ! h) = None \<and> \<not> killed (children ?s2 ! h)")
    case False
    with assms(2) have "s'' = ?s2" by (auto simp: Let_def)
    with p2 show ?thesis by simp
  next
    case True
    show ?thesis
    proof (cases "kill h SIGKILL ?s2")
      case (Inl s3)
      with True assms(2) have "s'' = s3" by (auto simp: Let_def)
      with passes_kill[OF a2, of h SIGKILL s3] Inl passes_trans[OF p2] show ?thesis by simp
    next
      case (Inr s3)
      with True assms(2) have e: "s'' = waitForExit h 2000 s3" by (auto simp: Let_def)
      have p3: "passes ?s2 s3" using passes_kill[OF a2, of h SIGKILL s3] Inr by simp
      have "passes s3 (waitForExit h 2000 s3)"
        by (rule passes_waitForExit[OF passes_tracked_alive[OF p3]])
      with p2 p3 e show ?thesis using passes_trans by blast
    qed
  qed
qed

lemma stopAgentProcess_Some:
  assumes "agentChild s = Some h" "tracked_alive s"
  shows "\<exists>r s'' tr. stopAgentProcess e s = (r, stop_finally h s'') \<and> passes s s''
           \<and> trace s'' = trace s @ stop_request e h s # tr"
proof (cases "win32 e \<and> pid (children s ! h) \<noteq> None")
  case True
  let ?s0 = "taskkill h s"
  let ?s1 = "waitFor (Some (taskkill_time e)) 5000 ?s0"
  have p0: "passes s ?s0" by (rule passes_taskkill[OF assms(2)])
  have p1: "passes s ?s1"
    by (rule passes_trans[OF p0 passes_waitFor[OF passes_tracked_alive[OF p0]]])
  have t1: "trace ?s1 = trace s @ [stop_request e h s]"
    using True by (simp add: waitFor_def taskkill_def Let_def stop_request_def)
  obtain r s'' where rest:
    "(let s2 = waitForExit h 7000 ?s1 in
          if exitCode (children s2 ! h) = None \<and> \<not> killed (children s2 ! h)
          then (case kill h SIGKILL s2 of
                  Inl s3 \<Rightarrow> (False, s3)
                | Inr s3 \<Rightarrow> (True, waitForExit h 2000 s3))
          else (True, s2)) = (r, s'')" by fastforce
  have p: "passes ?s1 s''" by (rule stop_tail_passes[OF passes_tracked_alive[OF p1] rest])
  then obtain tr where "trace s'' = trace ?s1 @ tr" by (auto simp: passes_def)
  with t1 have t: "trace s'' = trace s @ stop_request e h s # tr" by simp
  have "stopAgentProcess e s = (r, stop_finally h s'')"
    using assms(1) True rest by (simp add: stopAgentProcess_def)
  with passes_trans[OF p1 p] t show ?thesis by blast
next
  case False
  note br = if_not_P[OF False]
  show ?thesis
  proof (cases "kill h SIGTERM s")
    case (Inl s1)
    have p1: "passes s s1" using passes_kill[OF assms(2), of h SIGTERM s1] Inl by simp
    have t1: "trace s1 = trace s @ stop_request e h s # []"
      using kill_trace[of h SIGTERM s s1] Inl False by (simp add: stop_request_def)
    have "stopAgentProcess e s = (False, stop_finally h s1)"
      by (simp only: stopAgentProcess_def assms(1) option.case br Inl sum.case prod.case Let_def)
    with p1 t1 show ?thesis by blast
  next
    case (Inr s1)
    have p1: "passes s s1" using passes_kill[OF assms(2), of h SIGTERM s1] Inr by simp
    have t1: "trace s1 = trace s @ [stop_request e h s]"
      using kill_trace[of h SIGTERM s s1] Inr False by (simp add: stop_request_def)
    obtain r s'' where rest:
      "(let s2 = waitForExit h 7000 s1 in
          if exitCode (children s2 ! h) = None \<and> \<not> killed (children s2 ! h)
          then (case kill h SIGKILL s2 of
                  Inl s3 \<Rightarrow> (False, s3)
                | Inr s3 \<Rightarrow> (True, waitForExit h 2000 s3))
          else (True, s2)) = (r, s'')" by fastforce
    have p: "passes s1 s''" by (rule stop_tail_passes[OF passes_tracked_alive[OF p1] rest])
    then obtain tr where "trace s'' = trace s1 @ tr" by (auto simp: passes_def)
    with t1 have t: "trace s'' = trace s @ stop_request e h s # tr" by simp
    have "stopAgentProcess e s = (r, stop_finally h s'')"
      using rest
      by (simp only: stopAgentProcess_def assms(1) option.case br Inr sum.case prod.case Let_def)
    with passes_trans[OF p1 p] t show ?thesis by blast
  qed
qed

text \<open>What a stop leaves behind, whether or not a child was tracked.\<close>

lemma stopAgentProcess_result:
  assumes "tracked_alive s"
  shows "agentChild (snd (stopAgentProcess e s)) = None
       \<and> (agentChild s \<noteq> None \<longrightarrow> \<not> telegramEnabledRuntime (snd (stopAgentProcess e s)))
       \<and> (agentChild s = None \<longrightarrow> snd (stopAgentProcess e s) = s)
       \<and> files (snd (stopAgentProcess e s)) = files s
       \<and> agentTransitioning (snd (stopAgentProcess e s)) = agentTransitioning s
       \<and> length (children (snd (stopAgentProcess e s))) = length (children s)
       \<and> (\<forall>k < length (children s). exited (children s ! k)
             \<longrightarrow> exited (children (snd (stopAgentProcess e s)) ! k))
       \<and> (\<forall>k < length (children s).
             pid (children (snd (stopAgentProcess e s)) ! k) = pid (children s ! k))
       \<and> (\<exists>tr. trace (snd (stopAgentProcess e s)) = trace s @ tr)"
proof (cases "agentChild s")
  case None
  then show ?thesis by (simp add: stopAgentProcess_None)
next
  case (Some h)
  from stopAgentProcess_Some[OF Some assms, of e] obtain r s'' tr where
    st: "stopAgentProcess e s = (r, stop_finally h s'')" and p: "passes s s''"
    and t: "trace s'' = trace s @ stop_request e h s # tr" by blast
  show ?thesis
    using Some st p t by (auto simp: passes_def stop_finally_def)
qed

lemma waitForBackendReady_loop_never_healthy:
  "(\<And>u t. fst (fetch e u t) \<noteq> RespOk) \<Longrightarrow>
   \<not> fst (waitForBackendReady_loop e baseUrl h t0 tm s)"
proof (induction e baseUrl h t0 tm s rule: waitForBackendReady_loop.induct)
  case (1 e baseUrl h startedAt timeoutMs s)
  obtain r d where f: "fetch e (baseUrl @ ''/healthz'') (clock s) = (r, d)" by fastforce
  have r: "r \<noteq> RespOk" using "1.prems"[of "baseUrl @ ''/healthz''" "clock s"] f by simp
  show ?case
  proof (cases "clock s - startedAt < timeoutMs \<and> exitCode (children s ! h) = None")
    case True
    then show ?thesis
      using "1.IH"[OF _ _ f[symmetric] refl] "1.prems" r f
      by (subst waitForBackendReady_loop.simps) (simp add: Let_def)
  next
    case False
    then show ?thesis by (subst waitForBackendReady_loop.simps) auto
  qed
qed


lemma advance_untracked:
  "agentChild s = None \<Longrightarrow>
   agentChild (advance d s) = None \<and> telegramEnabledRuntime (advance d s) = telegramEnabledRuntime s"
  by (simp add: advance_agentChild advance_flag)

lemma advance_exited_mono:
  "k < length (children s) \<Longrightarrow> exited (children s ! k) \<Longrightarrow> exited (children (advance d s) ! k)"
  by (simp add: advance_nth exited_emit_exit_mono)

lemma advance_pid: "k < length (children s) \<Longrightarrow> pid (children (advance d s) ! k) = pid (children s ! k)"
  by (simp add: advance_nth)

text \<open>The states \<open>setTelegramEnabledInConfig\<close> can return.\<close>

lemma setTelegramEnabledInConfig_cases:
  "snd (setTelegramEnabledInConfig e p b s) = advance (io_time e) s
   \<and> (files s p = None \<or> (\<exists>d. files s p = Some d \<and> doc_telegram_enabled d = b))
   \<or> snd (setTelegramEnabledInConfig e p b s) = advance (io_time e) (advance (io_time e) s)
     \<and> \<not> writable e p
   \<or> (\<exists>d. files s p = Some d \<and> writable e p \<and>
        snd (setTelegramEnabledInConfig e p b s) =
          advance (io_time e) ((advance (io_time e) s)
            \<lparr>files := (files s)(p \<mapsto> d\<lparr>doc_telegram_enabled := b\<rparr>),
             trace := trace s @ [WriteConfig p b]\<rparr>))"
  by (cases "files s p") (auto simp: setTelegramEnabledInConfig_def Let_def)

lemma setTelegramEnabledInConfig_frame:
  assumes "agentChild s = None"
  shows "agentChild (snd (setTelegramEnabledInConfig e p b s)) = None
       \<and> telegramEnabledRuntime (snd (setTelegramEnabledInConfig e p b s)) = telegramEnabledRuntime s
       \<and> agentTransitioning (snd (setTelegramEnabledInConfig e p b s)) = agentTransitioning s
       \<and> length (children (snd (setTelegramEnabledInConfig e p b s))) = length (children s)
       \<and> (\<exists>tr. trace (snd (setTelegramEnabledInConfig e p b s)) = trace s @ tr
               \<and> (\<forall>x \<in> set tr. x = WriteConfig p b))"
proof -
  let ?a = "advance (io_time e) s"
  have a: "agentChild ?a = None" "telegramEnabledRuntime ?a = telegramEnabledRuntime s"
    using advance_untracked[OF assms] by simp_all
  have b: "agentChild (advance (io_time e) ?a) = None"
     "telegramEnabledRuntime (advance (io_time e) ?a) = telegramEnabledRuntime s"
    using advance_untracked[OF a(1)] a(2) by simp_all
  let ?w = "?a\<lparr>files := (files s)(p \<mapsto> d\<lparr>doc_telegram_enabled := b\<rparr>),
             trace := trace s @ [WriteConfig p b]\<rparr>"
  have c: "agentChild (advance (io_time e) (?a\<lparr>files := F, trace := T\<rparr>)) = None"
     "telegramEnabledRuntime (advance (io_time e) (?a\<lparr>files := F, trace := T\<rparr>))
        = telegramEnabledRuntime s" for F T
    using advance_untracked[of "?a\<lparr>files := F, trace := T\<rparr>"] a by simp_all
  show ?thesis
    using setTelegramEnabledInConfig_cases[of e p b s] a b c
    by (elim disjE conjE exE) simp_all
qed



lemma passes_url:
  assumes "tracked_alive s"
  shows "passes s (s\<lparr>backendBaseUrlRuntime := u\<rparr>)"
  using assms by (auto simp: passes_def tracked_alive_def split: option.splits)

lemma exited_birth [simp]: "\<not> exited (birth t c)"
  by (simp add: birth_def exited_def)

lemma start_tail:
  fixes s1 :: state and e :: env and cmd :: string and args :: "string list" and b :: bool
  defines "h \<equiv> length (children s1)"
  defines "s3 \<equiv> (snd (spawn e cmd args s1))\<lparr>agentChild := Some h, telegramEnabledRuntime := b\<rparr>"
  shows "\<exists>res s'.
     (let (listen, s4) = readListenFromConfig e cfg s3;
          baseUrl = resolveBackendBaseUrl listen;
          s5 = s4\<lparr>backendBaseUrlRuntime := baseUrl\<rparr>;
          (ready, s6) = waitForBackendReady e baseUrl h 30000 s5
      in if \<not> ready
         then Inr (\<lparr>s_ok = False, s_message = Some MsgNotReady, s_baseUrl = baseUrl\<rparr>,
                   snd (stopAgentProcess e s6))
         else Inr (\<lparr>s_ok = True, s_message = None, s_baseUrl = baseUrl\<rparr>, s6))
       = (Inr (res, s') :: error \<times> state + start_result \<times> state)
     \<and> started e h b res s1 s'
     \<and> ((\<forall>u t. fst (fetch e u t) \<noteq> RespOk) \<longrightarrow> \<not> s_ok res)"
proof -
  have s3: "agentChild s3 = Some h" "telegramEnabledRuntime s3 = b"
    "children s3 = children s1 @ [birth (clock s1) (spawned e h)]"
    "trace s3 = trace s1 @ [SpawnAgent cmd args h]" "files s3 = files s1"
    "agentTransitioning s3 = agentTransitioning s1"
    by (simp_all add: s3_def spawn_def Let_def h_def)
  have a3: "tracked_alive s3" by (simp add: tracked_alive_def s3 h_def)
  obtain listen s4 where l: "readListenFromConfig e cfg s3 = (listen, s4)" by fastforce
  define baseUrl where "baseUrl = resolveBackendBaseUrl listen"
  define s5 where "s5 = s4\<lparr>backendBaseUrlRuntime := baseUrl\<rparr>"
  obtain ready s6 where w: "waitForBackendReady e baseUrl h 30000 s5 = (ready, s6)" by fastforce
  have p34: "passes s3 s4" using passes_readListenFromConfig[OF a3, of e cfg] l by simp
  have p45: "passes s4 s5" unfolding s5_def by (rule passes_url[OF passes_tracked_alive[OF p34]])
  have p35: "passes s3 s5" by (rule passes_trans[OF p34 p45])
  have p56: "passes s5 s6"
    using passes_waitForBackendReady[OF passes_tracked_alive[OF p35], of e baseUrl h 30000] w by simp
  have p36: "passes s3 s6" by (rule passes_trans[OF p35 p56])
  have a6: "tracked_alive s6" by (rule passes_tracked_alive[OF p36])
  have len6: "length (children s6) = Suc h" using p36 s3(3) by (simp add: passes_def h_def)
  obtain tr6 where tr6: "trace s6 = trace s1 @ SpawnAgent cmd args h # tr6"
    using p36 s3(4) by (auto simp: passes_def)
  have ex6: "\<forall>k < h. exited (children s1 ! k) \<longrightarrow> exited (children s6 ! k)"
    using p36 s3(3) by (auto simp: passes_def h_def nth_append)
  have tk6: "agentChild s6 = Some h \<and> telegramEnabledRuntime s6 = b \<and> \<not> exited (children s6 ! h)
             \<or> agentChild s6 = None \<and> \<not> telegramEnabledRuntime s6 \<and> exited (children s6 ! h)"
    using p36 s3(1,2) by (auto simp: passes_def)
  have nh: "(\<forall>u t. fst (fetch e u t) \<noteq> RespOk) \<longrightarrow> \<not> ready"
    using waitForBackendReady_loop_never_healthy[of e baseUrl h "clock s5" 30000 s5] w
    by (auto simp: waitForBackendReady_def)
  show ?thesis
  proof (cases ready)
    case True
    let ?res = "\<lparr>s_ok = True, s_message = None, s_baseUrl = baseUrl\<rparr>"
    have "started e h b ?res s1 s6"
      unfolding started_def using p36 s3 len6 tr6 ex6 tk6 by (auto simp: passes_def)
    then show ?thesis
      using True l w nh by (simp add: Let_def baseUrl_def s5_def)
  next
    case False
    let ?res = "\<lparr>s_ok = False, s_message = Some MsgNotReady, s_baseUrl = baseUrl\<rparr>"
    let ?s7 = "snd (stopAgentProcess e s6)"
    note st = stopAgentProcess_result[OF a6, of e]
    have ar: "agentChild ?s7 = None" using st by simp
    have fl: "\<not> telegramEnabledRuntime ?s7"
      using st tk6 by (cases "agentChild s6") auto
    obtain tr7 where tr7: "trace ?s7 = trace s6 @ tr7" using st by blast
    have ex7: "\<forall>k < Suc h. exited (children s6 ! k) \<longrightarrow> exited (children ?s7 ! k)"
      using st len6 by simp
    have rq: "exited (children ?s7 ! h) \<or> Kill h SIGTERM \<in> set tr7
              \<or> (\<exists>p. pid (children ?s7 ! h) = Some p \<and> SpawnTaskkill p \<in> set tr7)"
    proof (cases "agentChild s6")
      case None
      with tk6 ex7 show ?thesis by auto
    next
      case (Some h')
      with tk6 have hh: "h' = h" by auto
      from stopAgentProcess_Some[OF Some[unfolded hh] a6, of e] obtain r s'' tr where
        sp: "stopAgentProcess e s6 = (r, stop_finally h s'')"
        and t: "trace s'' = trace s6 @ stop_request e h s6 # tr" by blast
      have "trace (stop_finally h s'') = trace s''" by (simp add: stop_finally_def)
      then have t7: "tr7 = stop_request e h s6 # tr"
        using sp t tr7 by simp
      have pd: "pid (children ?s7 ! h) = pid (children s6 ! h)" using st len6 by simp
      show ?thesis
        using t7 pd by (auto simp: stop_request_def)
    qed
    have t17: "trace ?s7 = trace s1 @ SpawnAgent cmd args h # (tr6 @ tr7)"
      using tr6 tr7 by simp
    have rq': "exited (children ?s7 ! h) \<or> Kill h SIGTERM \<in> set (tr6 @ tr7)
              \<or> (\<exists>p. pid (children ?s7 ! h) = Some p \<and> SpawnTaskkill p \<in> set (tr6 @ tr7))"
      using rq by auto
    have fr: "files ?s7 = files s1" "agentTransitioning ?s7 = agentTransitioning s1"
      "length (children ?s7) = Suc h"
      "\<forall>k < h. exited (children s1 ! k) \<longrightarrow> exited (children ?s7 ! k)"
      using st p36 s3 len6 ex6 ex7 by (auto simp: passes_def)
    have "started e h b ?res s1 ?s7"
      unfolding started_def using fr ar fl t17 rq' by (simp del: set_append)
    then show ?thesis
      using False l w by (simp add: Let_def baseUrl_def s5_def)
  qed
qed


lemma startAgentManaged_cases:
  fixes e :: env and cfg :: string and b sync :: bool and s :: state
  assumes "agentChild s = None"
  defines "s1 \<equiv> (if sync then snd (setTelegramEnabledInConfig e cfg b s) else s)"
  shows "(\<not> existsSync e bin \<and> isPackaged e
            \<and> startAgentManaged e bin cfg b sync s = Inl (AgentBinaryNotFound bin, s1))
       \<or> ((existsSync e bin \<or> \<not> isPackaged e)
            \<and> (\<exists>res s'. startAgentManaged e bin cfg b sync s = Inr (res, s')
                  \<and> started e (length (children s)) b res s1 s'
                  \<and> ((\<forall>u t. fst (fetch e u t) \<noteq> RespOk) \<longrightarrow> \<not> s_ok res)))"
proof -
  have len: "length (children s1) = length (children s)"
    using setTelegramEnabledInConfig_frame[OF assms(1), of e cfg b] by (simp add: s1_def)
  show ?thesis
  proof (cases "existsSync e bin")
    case True
    from start_tail[where e=e and cmd=bin and args="buildArgs cfg b" and ?s1.0=s1 and b=b and cfg=cfg] obtain res s' where
      "(let (listen, s4) = readListenFromConfig e cfg
            ((snd (spawn e bin (buildArgs cfg b) s1))
               \<lparr>agentChild := Some (length (children s1)), telegramEnabledRuntime := b\<rparr>);
          baseUrl = resolveBackendBaseUrl listen;
          s5 = s4\<lparr>backendBaseUrlRuntime := baseUrl\<rparr>;
          (ready, s6) = waitForBackendReady e baseUrl (length (children s1)) 30000 s5
      in if \<not> ready
         then Inr (\<lparr>s_ok = False, s_message = Some MsgNotReady, s_baseUrl = baseUrl\<rparr>,
                   snd (stopAgentProcess e s6))
         else Inr (\<lparr>s_ok = True, s_message = None, s_baseUrl = baseUrl\<rparr>, s6))
       = (Inr (res, s') :: error \<times> state + start_result \<times> state)"
      and "started e (length (children s1)) b res s1 s'"
      and "(\<forall>u t. fst (fetch e u t) \<noteq> RespOk) \<longrightarrow> \<not> s_ok res" by blast
    then show ?thesis
      using True len
      by (simp add: startAgentManaged_def spawnAgentProcess_def s1_def[symmetric] Let_def
          spawn_def)
  next
    case False
    show ?thesis
    proof (cases "isPackaged e")
      case True
      with False show ?thesis
        by (simp add: startAgentManaged_def spawnAgentProcess_def s1_def[symmetric] Let_def)
    next
      case np: False
      from start_tail[where e=e and cmd="''cargo''" and args="[''run'', ''--''] @ buildArgs cfg b"
          and ?s1.0=s1 and b=b and cfg=cfg]
      obtain res s' where
        "(let (listen, s4) = readListenFromConfig e cfg
            ((snd (spawn e ''cargo'' ([''run'', ''--''] @ buildArgs cfg b) s1))
               \<lparr>agentChild := Some (length (children s1)), telegramEnabledRuntime := b\<rparr>);
          baseUrl = resolveBackendBaseUrl listen;
          s5 = s4\<lparr>backendBaseUrlRuntime := baseUrl\<rparr>;
          (ready, s6) = waitForBackendReady e baseUrl (length (children s1)) 30000 s5
      in if \<not> ready
         then Inr (\<lparr>s_ok = False, s_message = Some MsgNotReady, s_baseUrl = baseUrl\<rparr>,
                   snd (stopAgentProcess e s6))
         else Inr (\<lparr>s_ok = True, s_message = None, s_baseUrl = baseUrl\<rparr>, s6))
       = (Inr (res, s') :: error \<times> state + start_result \<times> state)"
        and "started e (length (children s1)) b res s1 s'"
        and "(\<forall>u t. fst (fetch e u t) \<noteq> RespOk) \<longrightarrow> \<not> s_ok res" by blast
      then show ?thesis
        using False np len
        by (simp add: startAgentManaged_def spawnAgentProcess_def s1_def[symmetric] Let_def
            spawn_def)
    qed
  qed
qed


lemma setTelegramEnabledInConfig_length:
  "length (children (snd (setTelegramEnabledInConfig e p b s))) = length (children s)"
  using setTelegramEnabledInConfig_cases[of e p b s] by (elim disjE conjE exE) simp_all


lemmas eval_defs =
  agent_start_def withAgentOp_body_def agent_start_fn_def startAgentManaged_def
  spawnAgentProcess_def spawn_def birth_def buildArgs_def
  setTelegramEnabledInConfig_def readListenFromConfig_def
  waitForBackendReady_def stopAgentProcess_def stop_finally_def kill_def taskkill_def
  waitFor_def waitForExit_def time_to_exit_def schedule_def reaction_def
  advance_def deliver_def exit_event_def attachAgentLifecycle_def emit_exit_def due_def exited_def
  resolveProjectPath_def resolveConfigPath_def normalize_def runtimeConfigPath_def
  defaultMonitordBin_def startsWith_def
  sample_env_def sample_child_def sample_files_def sample_payload_def initial_def
  agent_stop_def agent_stop_fn_def telegram_set_enabled_def telegram_set_enabled_fn_def
  spawn_count_def live_children_def agent_status_def

lemma resolve_sample_listen: "resolveBackendBaseUrl ''0.0.0.0:9108'' = ''http://127.0.0.1:9108''"
  by (simp add: resolveBackendBaseUrl_def trim_def js_space_def startsWith_def lastIndexOf_def
      slice_def sliceFrom_def)

text \<open>A first start of a healthy agent, evaluated.\<close>

lemma sample_start:
  "agent_start (sample_env True) (sample_payload b) (initial sample_files) =
   (\<lparr>ok = True,
      message = Some (if b then MsgStartedWithTelegram else MsgStartedWithoutTelegram)\<rparr>,
    \<lparr>agentChild = Some 0, telegramEnabledRuntime = b,
     backendBaseUrlRuntime = ''http://127.0.0.1:9108'', agentTransitioning = False,
     children = [sample_child],
     files = (if b then sample_files(''/data/config.yaml'' \<mapsto>
                \<lparr>doc_listen = ''0.0.0.0:9108'', doc_telegram_enabled = True\<rparr>) else sample_files),
     clock = (if b then 8 else 7),
     trace = (if b then [WriteConfig ''/data/config.yaml'' True] else []) @
             [SpawnAgent ''/proj/build_target/debug/monitord'' [''--config'', ''/data/config.yaml''] 0,
              Fetch ''http://127.0.0.1:9108/healthz'' (if b then 3 else 2)]\<rparr>)"
  by (cases b) (simp_all add: eval_defs resolve_sample_listen waitForBackendReady_loop.simps Let_def)




text \<open>
  Claim C6 fails on the code on POSIX. \<open>child.kill('SIGTERM')\<close> sets \<open>child.killed\<close> as
  soon as the signal is sent, \<open>waitForExit\<close> returns at once for a child with
  \<open>killed\<close> set (line 336), and the escalation is guarded by \<open>!child.killed\<close> (line
  381). So for every tracked running child, \<open>stopAgentProcess\<close> sends SIGTERM and
  returns \<open>true\<close> without waiting and without ever sending SIGKILL: the clock has not
  moved, and the child is still running when it returns.
\<close>

theorem stopAgentProcess_posix_no_grace:
  assumes "\<not> win32 e" "agentChild s = Some h" "h < length (children s)"
    and "\<not> exited (children s ! h)" "\<not> kill_throws (children s ! h)"
  shows "fst (stopAgentProcess e s) = True
       \<and> clock (snd (stopAgentProcess e s)) = clock s
       \<and> trace (snd (stopAgentProcess e s)) = trace s @ [Kill h SIGTERM]
       \<and> \<not> exited (children (snd (stopAgentProcess e s)) ! h)
       \<and> agentChild (snd (stopAgentProcess e s)) = None"
proof -
  let ?c = "schedule (clock s) (on_term (children s ! h)) ((children s ! h)\<lparr>killed := True\<rparr>)"
  let ?s1 = "s\<lparr>trace := trace s @ [Kill h SIGTERM], children := (children s)[h := ?c]\<rparr>"
  have c: "killed ?c" "exited ?c = exited (children s ! h)"
    by (simp_all add: schedule_def exited_def split: option.splits prod.splits)
  have k: "kill h SIGTERM s = Inr ?s1"
    using assms(4,5) by (simp add: kill_def reaction_def Let_def)
  have w: "waitForExit h 7000 ?s1 = ?s1"
    using assms(3) c(1) by (simp add: waitForExit_def)
  have "stopAgentProcess e s = (True, stop_finally h ?s1)"
    using assms(1,2,3) k w c(1) by (simp add: stopAgentProcess_def Let_def)
  then show ?thesis
    using assms(2,3,4) c(2) by (simp add: stop_finally_def)
qed

text \<open>
  The hypotheses hold for the sample child, which ignores SIGTERM, once it is started:
  the stop returns at time 7, the time the start ended.
\<close>

theorem stopAgentProcess_posix_no_grace_witness:
  "clock (snd (agent_start (sample_env True) (sample_payload False) (initial sample_files))) = 7
   \<and> fst (stopAgentProcess (sample_env True)
        (snd (agent_start (sample_env True) (sample_payload False) (initial sample_files)))) = True
   \<and> clock (snd (stopAgentProcess (sample_env True)
        (snd (agent_start (sample_env True) (sample_payload False) (initial sample_files))))) = 7
   \<and> \<not> exited (children (snd (stopAgentProcess (sample_env True)
        (snd (agent_start (sample_env True) (sample_payload False) (initial sample_files))))) ! 0)"
proof -
  let ?s = "snd (agent_start (sample_env True) (sample_payload False) (initial sample_files))"
  have w: "\<not> win32 (sample_env True)" by (simp add: sample_env_def)
  have h: "agentChild ?s = Some 0" "0 < length (children ?s)"
    "\<not> exited (children ?s ! 0)" "\<not> kill_throws (children ?s ! 0)" "clock ?s = 7"
    by (simp_all add: sample_start sample_child_def exited_def)
  show ?thesis
    using stopAgentProcess_posix_no_grace[OF w h(1,2,3,4)] h(5) by simp
qed

lemma waitForBackendReady_loop_trace:
  "\<exists>tr. trace (snd (waitForBackendReady_loop e u h t0 tm s)) = trace s @ tr"
proof (induction e u h t0 tm s rule: waitForBackendReady_loop.induct)
  case (1 e baseUrl h startedAt timeoutMs s)
  obtain r d where f: "fetch e (baseUrl @ ''/healthz'') (clock s) = (r, d)" by fastforce
  show ?case
  proof (cases "clock s - startedAt < timeoutMs \<and> exitCode (children s ! h) = None \<and> r \<noteq> RespOk")
    case True
    then show ?thesis
      using "1.IH"[OF _ _ f[symmetric] refl] f
      by (subst waitForBackendReady_loop.simps) (auto simp: Let_def)
  next
    case False
    then show ?thesis
      using f by (subst waitForBackendReady_loop.simps) (auto simp: Let_def)
  qed
qed

lemma advance_exited_same:
  "k < length (children s) \<Longrightarrow> exited (children s ! k) \<Longrightarrow>
   children (advance d s) ! k = children s ! k"
  by (simp add: advance_nth due_def)

lemma waitForBackendReady_loop_signalled:
  "h < length (children s) \<Longrightarrow> exitCode (children s ! h) = None \<Longrightarrow>
   exited (children s ! h) \<Longrightarrow> (\<And>u t. fst (fetch e u t) \<noteq> RespOk) \<Longrightarrow> t0 \<le> clock s \<Longrightarrow>
   \<not> fst (waitForBackendReady_loop e u h t0 tm s)
   \<and> t0 + tm \<le> clock (snd (waitForBackendReady_loop e u h t0 tm s))"
proof (induction e u h t0 tm s rule: waitForBackendReady_loop.induct)
  case (1 e baseUrl h startedAt timeoutMs s)
  obtain r d where f: "fetch e (baseUrl @ ''/healthz'') (clock s) = (r, d)" by fastforce
  have r: "r \<noteq> RespOk" using "1.prems"(4)[of "baseUrl @ ''/healthz''" "clock s"] f by simp
  let ?s0 = "s\<lparr>trace := trace s @ [Fetch (baseUrl @ ''/healthz'') (clock s)]\<rparr>"
  let ?s2 = "advance 150 (advance d ?s0)"
  have c1: "children (advance d ?s0) ! h = children s ! h"
    using advance_exited_same[of h ?s0 d] "1.prems"(1,3) by simp
  have c2: "children ?s2 ! h = children s ! h"
    using advance_exited_same[of h "advance d ?s0" 150] "1.prems"(1,3) c1 by simp
  show ?case
  proof (cases "clock s - startedAt < timeoutMs")
    case True
    have "\<not> fst (waitForBackendReady_loop e baseUrl h startedAt timeoutMs ?s2)
          \<and> startedAt + timeoutMs
              \<le> clock (snd (waitForBackendReady_loop e baseUrl h startedAt timeoutMs ?s2))"
      using "1.IH"[OF True _ f[symmetric] refl] "1.prems" r c2 by simp
    then show ?thesis
      using True "1.prems"(2) r f
      by (subst (1 2) waitForBackendReady_loop.simps) (simp add: Let_def)
  next
    case False
    then show ?thesis
      using "1.prems"(5) by (subst (1 2) waitForBackendReady_loop.simps) simp
  qed
qed

text \<open>
  Claim C5 fails on the code for a child that was terminated by a signal. Node leaves
  \<open>child.exitCode\<close> at \<open>null\<close> for such a child and sets \<open>child.signalCode\<close>; the
  check of line 400 reads \<open>exitCode\<close> only. So although the child has exited, the probe
  goes on polling: it fetches at once, and with an endpoint that never answers it
  returns \<open>false\<close> only when the whole timeout has elapsed.
\<close>

theorem waitForBackendReady_polls_signalled_child:
  assumes "h < length (children s)" "exited (children s ! h)" "exitCode (children s ! h) = None"
    and "\<forall>u t. fst (fetch e u t) \<noteq> RespOk" "0 < tm"
  shows "\<not> fst (waitForBackendReady e url h tm s)
       \<and> clock s + tm \<le> clock (snd (waitForBackendReady e url h tm s))
       \<and> (\<exists>tr. trace (snd (waitForBackendReady e url h tm s))
                 = trace s @ Fetch (url @ ''/healthz'') (clock s) # tr)"
proof -
  obtain r d where f: "fetch e (url @ ''/healthz'') (clock s) = (r, d)" by fastforce
  have r: "r \<noteq> RespOk" using assms(4) f by (metis fst_conv)
  let ?s0 = "s\<lparr>trace := trace s @ [Fetch (url @ ''/healthz'') (clock s)]\<rparr>"
  let ?s2 = "advance 150 (advance d ?s0)"
  have u: "waitForBackendReady e url h tm s = waitForBackendReady_loop e url h (clock s) tm ?s2"
    unfolding waitForBackendReady_def
    using assms(3,5) r f by (subst waitForBackendReady_loop.simps) (simp add: Let_def)
  obtain tr where "trace (snd (waitForBackendReady_loop e url h (clock s) tm ?s2)) = trace ?s2 @ tr"
    using waitForBackendReady_loop_trace by blast
  then have t: "trace (snd (waitForBackendReady e url h tm s))
                 = trace s @ Fetch (url @ ''/healthz'') (clock s) # tr"
    using u by simp
  have "\<not> fst (waitForBackendReady_loop e url h (clock s) tm s)
        \<and> clock s + tm \<le> clock (snd (waitForBackendReady_loop e url h (clock s) tm s))"
    using waitForBackendReady_loop_signalled[OF assms(1,3,2), of e "clock s" url tm] assms(4)
    by simp
  then show ?thesis using t by (simp add: waitForBackendReady_def)
qed

text \<open>
  The hypotheses hold for a child terminated by SIGSEGV and an endpoint that never
  answers: the probe runs for the whole 30 seconds.
\<close>

theorem waitForBackendReady_polls_signalled_child_witness:
  "\<not> fst (waitForBackendReady (sample_env False) ''http://127.0.0.1:9108'' 0 30000 crashed_state)
   \<and> 30000 \<le> clock (snd (waitForBackendReady (sample_env False) ''http://127.0.0.1:9108'' 0 30000
                 crashed_state))"
proof -
  have h: "0 < length (children crashed_state)" "exited (children crashed_state ! 0)"
    "exitCode (children crashed_state ! 0) = None"
    by (simp_all add: crashed_state_def sample_child_def exited_def)
  have f: "\<forall>u t. fst (fetch (sample_env False) u t) \<noteq> RespOk" by (simp add: sample_env_def)
  show ?thesis
    using waitForBackendReady_polls_signalled_child[OF h f, of 30000 "''http://127.0.0.1:9108''"]
    by simp
qed

lemma setTelegramEnabledInConfig_other:
  "q \<noteq> p \<Longrightarrow> files (snd (setTelegramEnabledInConfig e p b s)) q = files s q"
  using setTelegramEnabledInConfig_cases[of e p b s] by (elim disjE conjE exE) simp_all


lemma tracked_alive_transitioning [simp]:
  "tracked_alive (s\<lparr>agentTransitioning := b\<rparr>) = tracked_alive s"
  by (simp add: tracked_alive_def split: option.splits)

text \<open>
  Claim C2, as amended. A toggle invoked while a child is tracked first stops it, then
  starts an agent with the target flag, and ends in exactly one of four outcomes, which
  the two starts it makes decide and which \<open>ok\<close> and the message tell apart:
  (a) the restart succeeds: success, and the new child is tracked with the target flag
  (unless it exited while its probe was succeeding);
  (b) the restart fails its health probe and the rollback start with the previous flag
  succeeds: recoverable failure, and the rollback child is tracked with the previous
  flag (unless it exited while its probe was succeeding);
  (c) the restart and the rollback both fail their probes: double failure, and no child
  is tracked;
  (d) the spawn of the restart throws because the binary is missing in a packaged
  installation (lines 323--325, caught at line 589): toggle error, no child is tracked,
  and nothing is attempted after the throw; the final state is the one in which the
  restart had synchronised the configuration file, no child was spawned.
\<close>

theorem telegram_set_enabled_outcomes:
  fixes e :: env and s :: state and target :: bool
  assumes "agentChild s = Some h" "tracked_alive s"
  defines "cfg \<equiv> resolveConfigPath e ''./config.yaml''"
    and "bin \<equiv> defaultMonitordBin e"
    and "prev \<equiv> telegramEnabledRuntime s"
    and "h1 \<equiv> length (children s)"
    and "s0 \<equiv> snd (stopAgentProcess e (s\<lparr>agentTransitioning := True\<rparr>))"
  shows "(\<exists>res s1.
            startAgentManaged e bin cfg target True s0 = Inr (res, s1) \<and> s_ok res
            \<and> telegram_set_enabled e target s
                = (\<lparr>ok = True, message = Some (if target then MsgTelegramOn else MsgTelegramOff)\<rparr>,
                   s1\<lparr>agentTransitioning := False\<rparr>)
            \<and> length (children s1) = Suc h1
            \<and> (agentChild s1 = Some h1 \<and> telegramEnabledRuntime s1 = target
                \<or> agentChild s1 = None \<and> exited (children s1 ! h1)))
       \<or> (\<exists>res s1 rb s2.
            startAgentManaged e bin cfg target True s0 = Inr (res, s1) \<and> \<not> s_ok res
            \<and> startAgentManaged e bin cfg prev True s1 = Inr (rb, s2) \<and> s_ok rb
            \<and> telegram_set_enabled e target s
                = (\<lparr>ok = False, message = Some (MsgToggleRolledBack (Some MsgNotReady))\<rparr>,
                   s2\<lparr>agentTransitioning := False\<rparr>)
            \<and> length (children s2) = Suc (Suc h1)
            \<and> (agentChild s2 = Some (Suc h1) \<and> telegramEnabledRuntime s2 = prev
                \<or> agentChild s2 = None \<and> exited (children s2 ! Suc h1)))
       \<or> (\<exists>res s1 rb s2.
            startAgentManaged e bin cfg target True s0 = Inr (res, s1) \<and> \<not> s_ok res
            \<and> startAgentManaged e bin cfg prev True s1 = Inr (rb, s2) \<and> \<not> s_ok rb
            \<and> telegram_set_enabled e target s
                = (\<lparr>ok = False, message = Some (MsgToggleRollbackFailed (Some MsgNotReady))\<rparr>,
                   s2\<lparr>agentTransitioning := False\<rparr>)
            \<and> length (children s2) = Suc (Suc h1)
            \<and> agentChild s2 = None)
       \<or> (\<not> existsSync e bin \<and> isPackaged e
            \<and> startAgentManaged e bin cfg target True s0
                = Inl (AgentBinaryNotFound bin, snd (setTelegramEnabledInConfig e cfg target s0))
            \<and> telegram_set_enabled e target s
                = (\<lparr>ok = False, message = Some (MsgToggleError (AgentBinaryNotFound bin))\<rparr>,
                   (snd (setTelegramEnabledInConfig e cfg target s0))\<lparr>agentTransitioning := False\<rparr>)
            \<and> length (children (snd (setTelegramEnabledInConfig e cfg target s0))) = h1
            \<and> agentChild (snd (setTelegramEnabledInConfig e cfg target s0)) = None)"
proof -
  let ?s = "s\<lparr>agentTransitioning := True\<rparr>"
  let ?w1 = "snd (setTelegramEnabledInConfig e cfg target s0)"
  have a: "tracked_alive ?s" using assms(2) by simp
  note st = stopAgentProcess_result[OF a, of e]
  have n0: "agentChild s0 = None" and l0: "length (children s0) = h1"
    using st by (simp_all add: s0_def h1_def)
  have nw1: "agentChild ?w1 = None"
    using setTelegramEnabledInConfig_frame[OF n0, where e=e and p=cfg and b=target] by simp
  have lw1: "length (children ?w1) = h1"
    using l0 by (simp add: setTelegramEnabledInConfig_length)
  have pv: "telegramEnabledRuntime ?s = prev" by (simp add: prev_def)
  have wr: "telegram_set_enabled e target s =
              (fst (telegram_set_enabled_fn e target ?s),
               (snd (telegram_set_enabled_fn e target ?s))\<lparr>agentTransitioning := False\<rparr>)"
    by (simp add: telegram_set_enabled_def withAgentOp_body_def split: prod.splits)
  have fn: "telegram_set_enabled_fn e target ?s =
      (case startAgentManaged e bin cfg target True s0 of
           Inl (err, s') \<Rightarrow> (\<lparr>ok = False, message = Some (MsgToggleError err)\<rparr>, s')
         | Inr (r1, s1) \<Rightarrow>
             if \<not> s_ok r1 then
               (case startAgentManaged e bin cfg prev True s1 of
                  Inl (err, s') \<Rightarrow> (\<lparr>ok = False, message = Some (MsgToggleError err)\<rparr>, s')
                | Inr (rollback, s2) \<Rightarrow>
                    if s_ok rollback
                    then (\<lparr>ok = False, message = Some (MsgToggleRolledBack (s_message r1))\<rparr>, s2)
                    else (\<lparr>ok = False,
                           message = Some (MsgToggleRollbackFailed (s_message r1))\<rparr>, s2))
             else (\<lparr>ok = True,
                    message = Some (if target then MsgTelegramOn else MsgTelegramOff)\<rparr>, s1))"
    unfolding telegram_set_enabled_fn_def Let_def cfg_def bin_def s0_def pv[unfolded prev_def]
      prev_def
    by simp
  from startAgentManaged_cases[OF n0, where e=e and bin=bin and sync=True and cfg=cfg and b=target]
  consider
      (thrown) "\<not> existsSync e bin" "isPackaged e"
        "startAgentManaged e bin cfg target True s0 = Inl (AgentBinaryNotFound bin, ?w1)"
    | (ran) res s1 where "existsSync e bin \<or> \<not> isPackaged e"
        "startAgentManaged e bin cfg target True s0 = Inr (res, s1)"
        "started e h1 target res ?w1 s1"
    using l0 by auto
  then show ?thesis
  proof cases
    case thrown
    have "telegram_set_enabled e target s
            = (\<lparr>ok = False, message = Some (MsgToggleError (AgentBinaryNotFound bin))\<rparr>,
               ?w1\<lparr>agentTransitioning := False\<rparr>)"
      unfolding wr fn thrown(3) by simp
    with thrown nw1 lw1 show ?thesis by blast
  next
    case ran
    show ?thesis
    proof (cases "s_ok res")
      case True
      have r: "telegram_set_enabled e target s
            = (\<lparr>ok = True, message = Some (if target then MsgTelegramOn else MsgTelegramOff)\<rparr>,
               s1\<lparr>agentTransitioning := False\<rparr>)"
        unfolding wr fn ran(2) using True by simp
      have "length (children s1) = Suc h1"
        "agentChild s1 = Some h1 \<and> telegramEnabledRuntime s1 = target
           \<or> agentChild s1 = None \<and> exited (children s1 ! h1)"
        using ran(3) True by (auto simp: started_def)
      with ran(2) True r show ?thesis by blast
    next
      case False
      with ran(3) have n1: "agentChild s1 = None" and l1: "length (children s1) = Suc h1"
        and m: "s_message res = Some MsgNotReady"
        by (auto simp: started_def)
      from startAgentManaged_cases[OF n1, where e=e and bin=bin and sync=True and cfg=cfg and b=prev]
        ran(1)
      obtain rb s2 where rb: "startAgentManaged e bin cfg prev True s1 = Inr (rb, s2)"
        and sd: "started e (Suc h1) prev rb (snd (setTelegramEnabledInConfig e cfg prev s1)) s2"
        using l1 by auto
      have l2: "length (children s2) = Suc (Suc h1)" using sd by (simp add: started_def)
      show ?thesis
      proof (cases "s_ok rb")
        case True
        have r: "telegram_set_enabled e target s
            = (\<lparr>ok = False, message = Some (MsgToggleRolledBack (Some MsgNotReady))\<rparr>,
               s2\<lparr>agentTransitioning := False\<rparr>)"
          unfolding wr fn ran(2) using False rb True m by simp
        have "agentChild s2 = Some (Suc h1) \<and> telegramEnabledRuntime s2 = prev
                \<or> agentChild s2 = None \<and> exited (children s2 ! Suc h1)"
          using sd True by (auto simp: started_def)
        with ran(2) False rb True r l2 show ?thesis by blast
      next
        case nok: False
        have r: "telegram_set_enabled e target s
            = (\<lparr>ok = False, message = Some (MsgToggleRollbackFailed (Some MsgNotReady))\<rparr>,
               s2\<lparr>agentTransitioning := False\<rparr>)"
          unfolding wr fn ran(2) using False rb nok m by simp
        have "agentChild s2 = None" using sd nok by (auto simp: started_def)
        with ran(2) False rb nok r l2 show ?thesis by blast
      qed
    qed
  qed
qed

lemmas sample_defs = eval_defs flaky_env_def packaged_env_def custom_payload_def persisted_def

lemma flaky_start:
  "5 \<le> r \<Longrightarrow>
   agent_start (flaky_env r) (sample_payload False) (initial sample_files) =
   (\<lparr>ok = True, message = Some MsgStartedWithoutTelegram\<rparr>,
    \<lparr>agentChild = Some 0, telegramEnabledRuntime = False,
     backendBaseUrlRuntime = ''http://127.0.0.1:9108'', agentTransitioning = False,
     children = [sample_child], files = sample_files, clock = 3,
     trace = [SpawnAgent ''/proj/build_target/debug/monitord'' [''--config'', ''/data/config.yaml''] 0,
              Fetch ''http://127.0.0.1:9108/healthz'' 2]\<rparr>)"
  by (simp add: sample_defs resolve_sample_listen waitForBackendReady_loop.simps Let_def)




lemma persisted_simps [simp]:
  "persisted (s\<lparr>agentTransitioning := b\<rparr>) = persisted s"
  "persisted (s\<lparr>agentChild := c\<rparr>) = persisted s"
  by (simp_all add: persisted_def fun_eq_iff)

lemma persisted_cong: "files s' = files s \<Longrightarrow> persisted s' p = persisted s p"
  by (simp add: persisted_def)







lemma consistent_transitioning [simp]:
  "consistent (s\<lparr>agentTransitioning := b\<rparr>) = consistent s"
  by (simp add: consistent_def)


lemmas scenario_defs = sample_defs outcome_def resolve_sample_listen
  waitForBackendReady_loop.simps Let_def

lemma packaged_start:
  "agent_start packaged_env custom_payload (initial sample_files) =
   (\<lparr>ok = True, message = Some MsgStartedWithoutTelegram\<rparr>,
    \<lparr>agentChild = Some 0, telegramEnabledRuntime = False,
     backendBaseUrlRuntime = ''http://127.0.0.1:9108'', agentTransitioning = False,
     children = [sample_child], files = sample_files, clock = 7,
     trace = [SpawnAgent ''/opt/agent'' [''--config'', ''/data/config.yaml''] 0,
              Fetch ''http://127.0.0.1:9108/healthz'' 2]\<rparr>)"
  by (simp add: scenario_defs)

text \<open>Scenario C of the specification: the restart fails its probe, the rollback succeeds.\<close>

lemma scenario_rollback:
  "outcome ''/data/config.yaml''
     (telegram_set_enabled (flaky_env 30100) True
        (snd (agent_start (flaky_env 30100) (sample_payload False) (initial sample_files))))
   = (\<lparr>ok = False, message = Some (MsgToggleRolledBack (Some MsgNotReady))\<rparr>,
      Some 2, False, False, Some False, 3, 3)"
  by (simp add: flaky_start) (simp add: scenario_defs)





lemma outcomeD:
  "outcome p rs = (r, c, f, t, d, n, l) \<Longrightarrow>
   fst rs = r \<and> agentChild (snd rs) = c \<and> telegramEnabledRuntime (snd rs) = f
   \<and> agentTransitioning (snd rs) = t \<and> persisted (snd rs) p = d
   \<and> spawn_count (snd rs) = n \<and> live_children (snd rs) = l"
  by (cases rs) (simp add: outcome_def)

text \<open>
  Claim C2 as stated fails: in a packaged installation whose bundled binary is missing,
  a toggle invoked while an agent (started from another binary) is running ends in none
  of the three outcomes. The spawn of the restart throws, the handler reports the error
  of line 590, no rollback is attempted (the spawn count stays 1) and no child is
  tracked.
\<close>

theorem telegram_set_enabled_spawn_error_counterexample:
  "agentChild (snd (agent_start packaged_env custom_payload (initial sample_files))) = Some 0
   \<and> outcome ''/data/config.yaml''
       (telegram_set_enabled packaged_env True
          (snd (agent_start packaged_env custom_payload (initial sample_files))))
     = (\<lparr>ok = False,
          message = Some (MsgToggleError (AgentBinaryNotFound ''/res/bin/monitord''))\<rparr>,
        None, False, False, Some True, 1, 1)"
  by (simp add: packaged_start) (simp add: scenario_defs)

text \<open>
  The hypotheses of C2 hold in scenario C, where the theorem gives outcome (b): the
  restart failed its probe, the rollback start succeeded, and the rollback child 2 is
  tracked with the previous flag.
\<close>

theorem telegram_set_enabled_outcomes_witness:
  "agentChild (snd (agent_start (flaky_env 30100) (sample_payload False) (initial sample_files)))
     = Some 0
   \<and> tracked_alive (snd (agent_start (flaky_env 30100) (sample_payload False) (initial sample_files)))
   \<and> message (fst (telegram_set_enabled (flaky_env 30100) True
        (snd (agent_start (flaky_env 30100) (sample_payload False) (initial sample_files)))))
     = Some (MsgToggleRolledBack (Some MsgNotReady))
   \<and> agentChild (snd (telegram_set_enabled (flaky_env 30100) True
        (snd (agent_start (flaky_env 30100) (sample_payload False) (initial sample_files)))))
     = Some 2
   \<and> telegramEnabledRuntime (snd (telegram_set_enabled (flaky_env 30100) True
        (snd (agent_start (flaky_env 30100) (sample_payload False) (initial sample_files)))))
     = telegramEnabledRuntime
         (snd (agent_start (flaky_env 30100) (sample_payload False) (initial sample_files)))
   \<and> length (children (snd (telegram_set_enabled (flaky_env 30100) True
        (snd (agent_start (flaky_env 30100) (sample_payload False) (initial sample_files))))))
     = 3"
proof -
  let ?S = "snd (agent_start (flaky_env 30100) (sample_payload False) (initial sample_files))"
  let ?R = "telegram_set_enabled (flaky_env 30100) True ?S"
  have h: "agentChild ?S = Some 0" "tracked_alive ?S" "length (children ?S) = 1"
    "telegramEnabledRuntime ?S = False"
    by (simp_all add: flaky_start tracked_alive_def sample_child_def exited_def)
  note o = outcomeD[OF scenario_rollback]
  have m: "message (fst ?R) = Some (MsgToggleRolledBack (Some MsgNotReady))"
    "agentChild (snd ?R) = Some 2"
    using o by simp_all
  from telegram_set_enabled_outcomes[OF h(1,2), where e="flaky_env 30100" and target=True]
  have "telegramEnabledRuntime (snd ?R) = telegramEnabledRuntime ?S
        \<and> length (children (snd ?R)) = 3"
    using m h(3) by (elim disjE exE conjE) simp_all
  with h(1,2) m show ?thesis by simp
qed







text \<open>
  The deadline bounds when a request is issued, not when it is answered: a request issued
  at time 2, before the deadline 30002, and answered with success at time 31002 makes
  the start succeed.
\<close>

lemma scenario_late_success:
  "fst (agent_start late_env (sample_payload False) (initial sample_files))
     = \<lparr>ok = True, message = Some MsgStartedWithoutTelegram\<rparr>
   \<and> clock (snd (agent_start late_env (sample_payload False) (initial sample_files))) = 31002
   \<and> health_deadline late_env (sample_payload False) (initial sample_files) = 30002"
  by (simp add: scenario_defs late_env_def health_deadline_def)

section \<open>The tracked child has not exited\<close>

lemma reach_tracked_alive: "reach e s \<Longrightarrow> tracked_alive s"
proof (induction rule: reach.induct)
  case (reach_initial fs)
  then show ?case by (simp add: tracked_alive_def initial_def)
next
  case (reach_time s d)
  then show ?case using passes_tracked_alive[OF passes_advance] by blast
next
  case (reach_spawn s cmd args b)
  then show ?case by (simp add: tracked_alive_def spawn_def Let_def)
next
  case (reach_kill s h sg s')
  then show ?case using passes_tracked_alive[OF passes_kill] by blast
next
  case (reach_taskkill s h)
  then show ?case using passes_tracked_alive[OF passes_taskkill] by blast
next
  case (reach_finally s h)
  then show ?case by (auto simp: tracked_alive_def stop_finally_def split: option.splits)
next
  case (reach_catch s)
  then show ?case by (simp add: tracked_alive_def)
next
  case (reach_url s u)
  then show ?case by (simp add: tracked_alive_def split: option.splits)
next
  case (reach_flag s b)
  then show ?case by (simp add: tracked_alive_def split: option.splits)
next
  case (reach_files s fs)
  then show ?case by (simp add: tracked_alive_def split: option.splits)
next
  case (reach_trace s tr)
  then show ?case by (simp add: tracked_alive_def split: option.splits)
qed

text \<open>The operations stay within the reachable states.\<close>

lemma reach_waitFor: "reach e s \<Longrightarrow> reach e (waitFor ev t s)"
  by (simp add: waitFor_def reach_time)

lemma reach_waitForExit: "reach e s \<Longrightarrow> reach e (waitForExit h t s)"
  by (simp add: waitForExit_def Let_def reach_waitFor)

lemma reach_setTelegramEnabledInConfig:
  "reach e s \<Longrightarrow> reach e (snd (setTelegramEnabledInConfig e p b s))"
  using setTelegramEnabledInConfig_cases[of e p b s]
  by (elim disjE conjE exE) (auto intro!: reach_time reach_files reach_trace)

lemma reach_readListenFromConfig:
  "reach e s \<Longrightarrow> reach e (snd (readListenFromConfig e p s))"
  by (auto simp: readListenFromConfig_def Let_def split: option.splits intro!: reach_time)

lemma reach_waitForBackendReady_loop:
  "reach e s \<Longrightarrow> reach e (snd (waitForBackendReady_loop e u h t0 tm s))"
proof (induction e u h t0 tm s rule: waitForBackendReady_loop.induct)
  case (1 e baseUrl h startedAt timeoutMs s)
  obtain r d where f: "fetch e (baseUrl @ ''/healthz'') (clock s) = (r, d)" by fastforce
  let ?a = "advance d (s\<lparr>trace := trace s @ [Fetch (baseUrl @ ''/healthz'') (clock s)]\<rparr>)"
  have ra: "reach e ?a" using "1.prems" by (intro reach_time reach_trace)
  show ?case
  proof (cases "clock s - startedAt < timeoutMs \<and> exitCode (children s ! h) = None \<and> r \<noteq> RespOk")
    case True
    then show ?thesis
      using "1.IH"[OF _ _ f[symmetric] refl] f reach_time[OF ra, of 150]
      by (subst waitForBackendReady_loop.simps) (simp add: Let_def)
  next
    case False
    then show ?thesis
      using f ra "1.prems" by (subst waitForBackendReady_loop.simps) (auto simp: Let_def)
  qed
qed

lemma reach_stopAgentProcess:
  assumes "reach e s"
  shows "reach e (snd (stopAgentProcess e s))"
proof (cases "agentChild s")
  case None
  with assms show ?thesis by (simp add: stopAgentProcess_def)
next
  case (Some h)
  have tail: "reach e (snd (let s2 = waitForExit h 7000 s1 in
          if exitCode (children s2 ! h) = None \<and> \<not> killed (children s2 ! h)
          then (case kill h SIGKILL s2 of
                  Inl s3 \<Rightarrow> (False, s3)
                | Inr s3 \<Rightarrow> (True, waitForExit h 2000 s3))
          else (True, s2)))" if "reach e s1" for s1
  proof -
    have r2: "reach e (waitForExit h 7000 s1)" by (rule reach_waitForExit[OF that])
    show ?thesis
    proof (cases "kill h SIGKILL (waitForExit h 7000 s1)")
      case (Inl s3)
      with r2 have "reach e s3" using reach_kill by blast
      with r2 Inl show ?thesis by (simp add: Let_def)
    next
      case (Inr s3)
      with r2 have "reach e s3" using reach_kill by blast
      with r2 Inr show ?thesis by (simp add: Let_def reach_waitForExit)
    qed
  qed
  show ?thesis
  proof (cases "win32 e \<and> pid (children s ! h) \<noteq> None")
    case True
    have "reach e (waitFor (Some (taskkill_time e)) 5000 (taskkill h s))"
      by (intro reach_waitFor reach_taskkill assms)
    from tail[OF this] show ?thesis
      using Some True
      by (auto simp: stopAgentProcess_def split: prod.splits intro: reach_finally)
  next
    case False
    note br = if_not_P[OF False]
    show ?thesis
    proof (cases "kill h SIGTERM s")
      case (Inl s1)
      with assms have "reach e s1" using reach_kill by blast
      then have "reach e (stop_finally h s1)" by (rule reach_finally)
      moreover have "stopAgentProcess e s = (False, stop_finally h s1)"
        by (simp only: stopAgentProcess_def Some option.case br Inl sum.case prod.case Let_def)
      ultimately show ?thesis by simp
    next
      case (Inr s1)
      with assms have "reach e s1" using reach_kill by blast
      from tail[OF this] show ?thesis
        unfolding stopAgentProcess_def Some option.case br Inr sum.case
        by (auto split: prod.splits intro: reach_finally)
    qed
  qed
qed

lemma reach_start_tail:
  assumes r3: "reach e s3"
  shows "reach e (snd (projr (let (listen, s4) = readListenFromConfig e cfg s3;
              baseUrl = resolveBackendBaseUrl listen;
              s5 = s4\<lparr>backendBaseUrlRuntime := baseUrl\<rparr>;
              (ready, s6) = waitForBackendReady e baseUrl child 30000 s5
          in if \<not> ready
             then (Inr (\<lparr>s_ok = False, s_message = Some MsgNotReady, s_baseUrl = baseUrl\<rparr>,
                       snd (stopAgentProcess e s6)) :: error \<times> state + start_result \<times> state)
             else Inr (\<lparr>s_ok = True, s_message = None, s_baseUrl = baseUrl\<rparr>, s6))))"
proof -
  obtain listen s4 where l: "readListenFromConfig e cfg s3 = (listen, s4)" by fastforce
  have r4: "reach e s4" using reach_readListenFromConfig[OF r3, of cfg] l by simp
  let ?s5 = "s4\<lparr>backendBaseUrlRuntime := resolveBackendBaseUrl listen\<rparr>"
  have r5: "reach e ?s5" by (rule reach_url[OF r4])
  obtain ready s6 where
    w: "waitForBackendReady e (resolveBackendBaseUrl listen) child 30000 ?s5 = (ready, s6)"
    by fastforce
  have r6: "reach e s6"
    using reach_waitForBackendReady_loop[OF r5, of "resolveBackendBaseUrl listen"
        child "clock ?s5" 30000] w
    by (simp add: waitForBackendReady_def)
  show ?thesis
    using l w r6 reach_stopAgentProcess[OF r6] by (simp add: Let_def)
qed

lemma reach_startAgentManaged:
  assumes "reach e s"
  shows "reach e (case startAgentManaged e bin cfg b sync s of
                    Inl (err, s') \<Rightarrow> s' | Inr (res, s') \<Rightarrow> s')"
proof -
  let ?w = "if sync then snd (setTelegramEnabledInConfig e cfg b s) else s"
  have rw: "reach e ?w" using assms reach_setTelegramEnabledInConfig by simp
  show ?thesis
  proof (cases "spawnAgentProcess e bin cfg b ?w")
    case (Inl err)
    with rw show ?thesis by (simp add: startAgentManaged_def Let_def)
  next
    case (Inr p)
    obtain child s2 where p: "p = (child, s2)" by fastforce
    have "\<exists>cmd args. (child, s2) = spawn e cmd args ?w"
      using Inr p by (simp add: spawnAgentProcess_def Let_def split: if_splits) metis+
    then obtain cmd args where sp: "(child, s2) = spawn e cmd args ?w" by blast
    have "reach e ((snd (spawn e cmd args ?w))
             \<lparr>agentChild := Some (fst (spawn e cmd args ?w)), telegramEnabledRuntime := b\<rparr>)"
      by (rule reach_spawn[OF rw])
    then have r3: "reach e (s2\<lparr>agentChild := Some child, telegramEnabledRuntime := b\<rparr>)"
      using sp[symmetric] by simp
    have "startAgentManaged e bin cfg b sync s = Inr (projr (startAgentManaged e bin cfg b sync s))"
      using Inr p by (simp add: startAgentManaged_def Let_def split: prod.splits)
    moreover have "reach e (snd (projr (startAgentManaged e bin cfg b sync s)))"
      using reach_start_tail[OF r3, of cfg child] Inr p
      by (simp add: startAgentManaged_def Let_def)
    ultimately show ?thesis
      by (metis (no_types, lifting) sum.case(2) case_prod_beta)
  qed
qed

lemma reach_agent_start_fn: "reach e s \<Longrightarrow> reach e (snd (agent_start_fn e p s))"
proof -
  assume r: "reach e s"
  let ?bin = "resolveProjectPath e (if p_binPath p \<noteq> [] then p_binPath p else defaultMonitordBin e)"
  let ?cfg = "resolveConfigPath e (if p_configPath p \<noteq> [] then p_configPath p else ''./config.yaml'')"
  let ?b = "p_telegramEnabled p"
  show ?thesis
  proof (cases "agentChild s \<noteq> None")
    case True
    with r show ?thesis by (simp add: agent_start_fn_def)
  next
    case False
    note m = reach_startAgentManaged[OF r, of ?bin ?cfg ?b True]
    show ?thesis
    proof (cases "startAgentManaged e ?bin ?cfg ?b True s")
      case (Inl a)
      obtain err s' where a: "a = (err, s')" by fastforce
      have "reach e s'" using m Inl a by simp
      then have "reach e (s'\<lparr>agentChild := None\<rparr>)" by (rule reach_catch)
      then show ?thesis using False Inl a by (simp add: agent_start_fn_def Let_def)
    next
      case (Inr a)
      obtain res s' where a: "a = (res, s')" by fastforce
      have "reach e s'" using m Inr a by simp
      then show ?thesis using False Inr a by (simp add: agent_start_fn_def Let_def)
    qed
  qed
qed

lemma reach_agent_stop_fn: "reach e s \<Longrightarrow> reach e (snd (agent_stop_fn e s))"
  by (simp add: agent_stop_fn_def reach_stopAgentProcess)

lemma reach_telegram_set_enabled_fn:
  assumes "reach e s"
  shows "reach e (snd (telegram_set_enabled_fn e b s))"
proof -
  let ?cfg = "resolveConfigPath e ''./config.yaml''"
  let ?bin = "defaultMonitordBin e"
  let ?s0 = "snd (stopAgentProcess e s)"
  have r0: "reach e ?s0" by (rule reach_stopAgentProcess[OF assms])
  note m0 = reach_startAgentManaged[OF r0, of ?bin ?cfg b True]
  show ?thesis
  proof (cases "startAgentManaged e ?bin ?cfg b True ?s0")
    case (Inl a)
    obtain err s' where a: "a = (err, s')" by fastforce
    have "reach e s'" using m0 Inl a by simp
    then show ?thesis using Inl a by (simp add: telegram_set_enabled_fn_def Let_def)
  next
    case (Inr a)
    obtain res s1 where a: "a = (res, s1)" by fastforce
    have r1: "reach e s1" using m0 Inr a by simp
    note m1 = reach_startAgentManaged[OF r1, of ?bin ?cfg "telegramEnabledRuntime s" True]
    show ?thesis
    proof (cases "s_ok res")
      case True
      then show ?thesis using Inr a r1 by (simp add: telegram_set_enabled_fn_def Let_def)
    next
      case False
      show ?thesis
      proof (cases "startAgentManaged e ?bin ?cfg (telegramEnabledRuntime s) True s1")
        case (Inl c)
        obtain err s' where c: "c = (err, s')" by fastforce
        have "reach e s'" using m1 Inl c by simp
        then show ?thesis
          using Inr a False Inl c by (simp add: telegram_set_enabled_fn_def Let_def)
      next
        case Inr2: (Inr c)
        obtain rb s2 where c: "c = (rb, s2)" by fastforce
        have "reach e s2" using m1 Inr2 c by simp
        then show ?thesis
          using Inr a False Inr2 c by (simp add: telegram_set_enabled_fn_def Let_def)
      qed
    qed
  qed
qed

lemma reach_ensureBackendStarted_fn:
  assumes "reach e s"
  shows "reach e (snd (ensureBackendStarted_fn e s))"
proof (cases "agentChild s \<noteq> None")
  case True
  with assms show ?thesis by (simp add: ensureBackendStarted_fn_def)
next
  case False
  let ?cfg = "resolveConfigPath e ''./config.yaml''"
  let ?bin = "defaultMonitordBin e"
  note m0 = reach_startAgentManaged[OF assms, of ?bin ?cfg False False]
  show ?thesis
  proof (cases "startAgentManaged e ?bin ?cfg False False s")
    case (Inl a)
    obtain err s' where a: "a = (err, s')" by fastforce
    have "reach e s'" using m0 Inl a by simp
    then show ?thesis using False Inl a by (simp add: ensureBackendStarted_fn_def Let_def)
  next
    case (Inr a)
    obtain res s1 where a: "a = (res, s1)" by fastforce
    have r1: "reach e s1" using m0 Inr a by simp
    let ?s2 = "snd (setTelegramEnabledInConfig e ?cfg False s1)"
    have r2: "reach e ?s2" by (rule reach_setTelegramEnabledInConfig[OF r1])
    note m2 = reach_startAgentManaged[OF r2, of ?bin ?cfg False False]
    show ?thesis
    proof (cases "s_ok res")
      case True
      then show ?thesis using False Inr a r1 by (simp add: ensureBackendStarted_fn_def Let_def)
    next
      case nok: False
      show ?thesis
      proof (cases "startAgentManaged e ?bin ?cfg False False ?s2")
        case (Inl c)
        obtain err s' where c: "c = (err, s')" by fastforce
        have "reach e s'" using m2 Inl c by simp
        then show ?thesis
          using False Inr a nok Inl c by (simp add: ensureBackendStarted_fn_def Let_def)
      next
        case Inr2: (Inr c)
        obtain ag s3 where c: "c = (ag, s3)" by fastforce
        have "reach e s3" using m2 Inr2 c by simp
        then show ?thesis
          using False Inr a nok Inr2 c by (simp add: ensureBackendStarted_fn_def Let_def)
      qed
    qed
  qed
qed

section \<open>Only \<open>withAgentOp\<close> writes the transitioning flag\<close>

lemma flag_kill:
  "kill h sg s = Inl s' \<or> kill h sg s = Inr s' \<Longrightarrow> agentTransitioning s' = agentTransitioning s"
  using kill_cases[of h sg s] by auto

lemma flag_waitForExit [simp]: "agentTransitioning (waitForExit h t s) = agentTransitioning s"
  by (simp add: waitForExit_def waitFor_def Let_def)

lemma flag_stop_finally [simp]: "agentTransitioning (stop_finally h s) = agentTransitioning s"
  by (simp add: stop_finally_def)

lemma flag_stopAgentProcess [simp]:
  "agentTransitioning (snd (stopAgentProcess e s)) = agentTransitioning s"
proof (cases "agentChild s")
  case None
  then show ?thesis by (simp add: stopAgentProcess_def)
next
  case (Some h)
  define T where "T = (\<lambda>s1. let s2 = waitForExit h 7000 s1 in
          if exitCode (children s2 ! h) = None \<and> \<not> killed (children s2 ! h)
          then (case kill h SIGKILL s2 of
                  Inl s3 \<Rightarrow> (False, s3)
                | Inr s3 \<Rightarrow> (True, waitForExit h 2000 s3))
          else (True, s2))"
  have tail: "agentTransitioning (snd (T s1)) = agentTransitioning s1" for s1
    unfolding T_def
    using flag_kill[of h SIGKILL "waitForExit h 7000 s1"]
    by (cases "kill h SIGKILL (waitForExit h 7000 s1)") (simp_all add: Let_def)
  define X where "X = (case (if win32 e \<and> pid (children s ! h) \<noteq> None
                       then Inr (waitFor (Some (taskkill_time e)) 5000 (taskkill h s))
                       else kill h SIGTERM s) of
                   Inl s1 \<Rightarrow> (False, s1)
                 | Inr s1 \<Rightarrow> T s1)"
  have st: "stopAgentProcess e s = (fst X, stop_finally h (snd X))"
    unfolding X_def T_def stopAgentProcess_def Some
    by (simp only: option.case Let_def case_prod_beta)
  have fx: "agentTransitioning (snd X) = agentTransitioning s"
  proof (cases "win32 e \<and> pid (children s ! h) \<noteq> None")
    case True
    have "X = T (waitFor (Some (taskkill_time e)) 5000 (taskkill h s))"
      unfolding X_def if_P[OF True] by simp
    then show ?thesis by (simp add: tail waitFor_def taskkill_def Let_def)
  next
    case False
    show ?thesis
    proof (cases "kill h SIGTERM s")
      case (Inl s1)
      have "X = (False, s1)" unfolding X_def if_not_P[OF False] Inl by simp
      then show ?thesis using flag_kill[of h SIGTERM s s1] Inl by simp
    next
      case (Inr s1)
      have "X = T s1" unfolding X_def if_not_P[OF False] Inr by simp
      then show ?thesis using flag_kill[of h SIGTERM s s1] Inr by (simp add: tail)
    qed
  qed
  show ?thesis by (simp add: st fx)
qed

lemma flag_setTelegramEnabledInConfig [simp]:
  "agentTransitioning (snd (setTelegramEnabledInConfig e p b s)) = agentTransitioning s"
  using setTelegramEnabledInConfig_cases[of e p b s] by auto

lemma flag_readListenFromConfig [simp]:
  "agentTransitioning (snd (readListenFromConfig e p s)) = agentTransitioning s"
  by (simp add: readListenFromConfig_def Let_def split: option.splits)

lemma flag_waitForBackendReady_loop [simp]:
  "agentTransitioning (snd (waitForBackendReady_loop e u h t0 tm s)) = agentTransitioning s"
proof (induction e u h t0 tm s rule: waitForBackendReady_loop.induct)
  case (1 e baseUrl h startedAt timeoutMs s)
  obtain r d where f: "fetch e (baseUrl @ ''/healthz'') (clock s) = (r, d)" by fastforce
  show ?case
  proof (cases "clock s - startedAt < timeoutMs \<and> exitCode (children s ! h) = None \<and> r \<noteq> RespOk")
    case True
    then show ?thesis
      using "1.IH"[OF _ _ f[symmetric] refl] f
      by (subst waitForBackendReady_loop.simps) (simp add: Let_def)
  next
    case False
    then show ?thesis
      using f by (subst waitForBackendReady_loop.simps) (auto simp: Let_def)
  qed
qed

lemma flag_start_tail:
  "agentTransitioning (snd (projr (let (listen, s4) = readListenFromConfig e cfg s3;
              baseUrl = resolveBackendBaseUrl listen;
              s5 = s4\<lparr>backendBaseUrlRuntime := baseUrl\<rparr>;
              (ready, s6) = waitForBackendReady e baseUrl child 30000 s5
          in if \<not> ready
             then (Inr (\<lparr>s_ok = False, s_message = Some MsgNotReady, s_baseUrl = baseUrl\<rparr>,
                       snd (stopAgentProcess e s6)) :: error \<times> state + start_result \<times> state)
             else Inr (\<lparr>s_ok = True, s_message = None, s_baseUrl = baseUrl\<rparr>, s6))))
     = agentTransitioning s3"
proof -
  obtain listen s4 where l: "readListenFromConfig e cfg s3 = (listen, s4)" by fastforce
  have "agentTransitioning (snd (readListenFromConfig e cfg s3)) = agentTransitioning s3"
    by simp
  then have f4: "agentTransitioning s4 = agentTransitioning s3"
    unfolding l by simp
  let ?s5 = "s4\<lparr>backendBaseUrlRuntime := resolveBackendBaseUrl listen\<rparr>"
  obtain ready s6 where
    w: "waitForBackendReady e (resolveBackendBaseUrl listen) child 30000 ?s5 = (ready, s6)"
    by fastforce
  have "agentTransitioning (snd (waitForBackendReady e (resolveBackendBaseUrl listen) child 30000 ?s5))
          = agentTransitioning ?s5"
    by (simp add: waitForBackendReady_def)
  then have f6: "agentTransitioning s6 = agentTransitioning s3"
    unfolding w using f4 by simp
  show ?thesis
    using l w f6 by (simp add: Let_def)
qed

lemma flag_startAgentManaged:
  "agentTransitioning (case startAgentManaged e bin cfg b sync s of
                         Inl (err, s') \<Rightarrow> s' | Inr (res, s') \<Rightarrow> s') = agentTransitioning s"
proof -
  let ?w = "if sync then snd (setTelegramEnabledInConfig e cfg b s) else s"
  have fw: "agentTransitioning ?w = agentTransitioning s" by simp
  show ?thesis
  proof (cases "spawnAgentProcess e bin cfg b ?w")
    case (Inl err)
    with fw show ?thesis by (simp add: startAgentManaged_def Let_def)
  next
    case (Inr p)
    obtain child s2 where p: "p = (child, s2)" by fastforce
    have "\<exists>cmd args. (child, s2) = spawn e cmd args ?w"
      using Inr p by (simp add: spawnAgentProcess_def Let_def split: if_splits) metis+
    then obtain cmd args where sp: "(child, s2) = spawn e cmd args ?w" by blast
    have "agentTransitioning (snd (spawn e cmd args ?w)) = agentTransitioning ?w"
      by (simp add: spawn_def Let_def)
    then have f3: "agentTransitioning (s2\<lparr>agentChild := Some child, telegramEnabledRuntime := b\<rparr>)
                     = agentTransitioning s"
      using sp[symmetric] fw by simp
    have "startAgentManaged e bin cfg b sync s = Inr (projr (startAgentManaged e bin cfg b sync s))"
      using Inr p by (simp add: startAgentManaged_def Let_def split: prod.splits)
    moreover have "agentTransitioning (snd (projr (startAgentManaged e bin cfg b sync s)))
                     = agentTransitioning s"
      using flag_start_tail[of e cfg "s2\<lparr>agentChild := Some child, telegramEnabledRuntime := b\<rparr>" child]
        f3 Inr p
      by (simp add: startAgentManaged_def Let_def)
    ultimately show ?thesis
      by (metis (no_types, lifting) sum.case(2) case_prod_beta)
  qed
qed

lemma keeps_flag_agent_start_fn: "keeps_flag (\<lambda>s. snd (agent_start_fn e p s))"
  unfolding keeps_flag_def
proof
  fix s
  let ?bin = "resolveProjectPath e (if p_binPath p \<noteq> [] then p_binPath p else defaultMonitordBin e)"
  let ?cfg = "resolveConfigPath e (if p_configPath p \<noteq> [] then p_configPath p else ''./config.yaml'')"
  let ?b = "p_telegramEnabled p"
  note m = flag_startAgentManaged[of e ?bin ?cfg ?b True s]
  show "agentTransitioning (snd (agent_start_fn e p s)) = agentTransitioning s"
  proof (cases "agentChild s \<noteq> None")
    case True
    then show ?thesis by (simp add: agent_start_fn_def)
  next
    case False
    show ?thesis
    proof (cases "startAgentManaged e ?bin ?cfg ?b True s")
      case (Inl a)
      obtain err s' where a: "a = (err, s')" by fastforce
      have "agentTransitioning s' = agentTransitioning s" using m Inl a by simp
      then show ?thesis using False Inl a by (simp add: agent_start_fn_def Let_def)
    next
      case (Inr a)
      obtain res s' where a: "a = (res, s')" by fastforce
      have "agentTransitioning s' = agentTransitioning s" using m Inr a by simp
      then show ?thesis using False Inr a by (simp add: agent_start_fn_def Let_def)
    qed
  qed
qed

lemma keeps_flag_agent_stop_fn: "keeps_flag (\<lambda>s. snd (agent_stop_fn e s))"
  by (simp add: keeps_flag_def agent_stop_fn_def)

lemma keeps_flag_telegram_set_enabled_fn: "keeps_flag (\<lambda>s. snd (telegram_set_enabled_fn e b s))"
  unfolding keeps_flag_def
proof
  fix s
  let ?cfg = "resolveConfigPath e ''./config.yaml''"
  let ?bin = "defaultMonitordBin e"
  let ?s0 = "snd (stopAgentProcess e s)"
  have f0: "agentTransitioning ?s0 = agentTransitioning s" by simp
  note m0 = flag_startAgentManaged[of e ?bin ?cfg b True ?s0]
  show "agentTransitioning (snd (telegram_set_enabled_fn e b s)) = agentTransitioning s"
  proof (cases "startAgentManaged e ?bin ?cfg b True ?s0")
    case (Inl a)
    obtain err s' where a: "a = (err, s')" by fastforce
    have "agentTransitioning s' = agentTransitioning s" using m0 f0 Inl a by simp
    then show ?thesis using Inl a by (simp add: telegram_set_enabled_fn_def Let_def)
  next
    case (Inr a)
    obtain res s1 where a: "a = (res, s1)" by fastforce
    have f1: "agentTransitioning s1 = agentTransitioning s" using m0 f0 Inr a by simp
    note m1 = flag_startAgentManaged[of e ?bin ?cfg "telegramEnabledRuntime s" True s1]
    show ?thesis
    proof (cases "s_ok res")
      case True
      then show ?thesis using Inr a f1 by (simp add: telegram_set_enabled_fn_def Let_def)
    next
      case False
      show ?thesis
      proof (cases "startAgentManaged e ?bin ?cfg (telegramEnabledRuntime s) True s1")
        case (Inl c)
        obtain err s' where c: "c = (err, s')" by fastforce
        have "agentTransitioning s' = agentTransitioning s" using m1 f1 Inl c by simp
        then show ?thesis
          using Inr a False Inl c by (simp add: telegram_set_enabled_fn_def Let_def)
      next
        case Inr2: (Inr c)
        obtain rb s2 where c: "c = (rb, s2)" by fastforce
        have "agentTransitioning s2 = agentTransitioning s" using m1 f1 Inr2 c by simp
        then show ?thesis
          using Inr a False Inr2 c by (simp add: telegram_set_enabled_fn_def Let_def)
      qed
    qed
  qed
qed

section \<open>The serializer stays within the reachable states\<close>

lemma reach_sched_chain_update:
  assumes "reach_sched e st" "list_all (keeps_reach e) (segs x)"
  shows "reach_sched e (st\<lparr>chain := (chain st)[i := x]\<rparr>)"
proof -
  have "set ((chain st)[i := x]) \<subseteq> insert x (set (chain st))"
    by (rule set_update_subset_insert)
  then show ?thesis
    using assms by (auto simp: reach_sched_def list_all_iff)
qed

lemma reach_sched_run_seg:
  assumes "reach_sched e st" "keeps_reach e f"
  shows "reach_sched e (run_seg i k f st)"
  using assms by (simp add: reach_sched_def run_seg_def keeps_reach_def)

lemma reach_sched_flag:
  assumes "reach_sched e st"
  shows "reach_sched e (st\<lparr>glob := (glob st)\<lparr>agentTransitioning := b\<rparr>\<rparr>)"
  using assms by (simp add: reach_sched_def reach_flag)

lemma reach_sched_settle:
  assumes "reach_sched e st"
  shows "reach_sched e (settle i rej st)"
proof -
  have "settle i rej st
          = (st\<lparr>glob := (glob st)\<lparr>agentTransitioning := False\<rparr>\<rparr>)
              \<lparr>chain := (chain (st\<lparr>glob := (glob st)\<lparr>agentTransitioning := False\<rparr>\<rparr>))[i := Settled rej]\<rparr>"
    by (simp add: settle_def)
  then show ?thesis
    using reach_sched_chain_update[OF reach_sched_flag[OF assms, of False], of "Settled rej" i]
    by simp
qed

lemma reach_sched_nth:
  assumes "reach_sched e st" "i < length (chain st)"
  shows "list_all (keeps_reach e) (segs (chain st ! i))"
  using assms by (simp add: reach_sched_def list_all_length)

lemma reach_sched_start_from:
  "reach_sched e st \<Longrightarrow> reach_sched e (start_from i st)"
proof (induction i st rule: start_from.induct)
  case (1 i st)
  show ?case
  proof (cases "i < length (chain st)")
    case False
    then show ?thesis using "1.prems" by (subst start_from.simps) simp
  next
    case True
    note segs_i = reach_sched_nth[OF "1.prems" True]
    show ?thesis
    proof (cases "chain st ! i")
      case (Waiting op)
      let ?st0 = "st\<lparr>glob := (glob st)\<lparr>agentTransitioning := True\<rparr>\<rparr>"
      let ?st1 = "run_seg i 0 (op_first op) ?st0"
      have kf: "keeps_reach e (op_first op)" "list_all (keeps_reach e) (op_rest op)"
        using segs_i Waiting by simp_all
      have r1: "reach_sched e ?st1"
        by (rule reach_sched_run_seg[OF reach_sched_flag[OF "1.prems"] kf(1)])
      show ?thesis
      proof (cases "op_rest op = []")
        case e: True
        have "reach_sched e (start_from (Suc i) (settle i (op_rejects op) ?st1))"
          by (rule "1.IH"[OF True Waiting refl e reach_sched_settle[OF r1]])
        then show ?thesis
          using True Waiting e by (subst start_from.simps) (simp add: Let_def)
      next
        case ne: False
        have "reach_sched e (?st1\<lparr>chain := (chain ?st1)[i := Running 1 (op_rest op) (op_rejects op)]\<rparr>)"
          by (rule reach_sched_chain_update[OF r1]) (simp add: kf(2))
        then show ?thesis
          using True Waiting ne by (subst start_from.simps) (simp add: Let_def)
      qed
    next
      case (Running k fs rej)
      then show ?thesis using True "1.prems" by (subst start_from.simps) simp
    next
      case (Settled rej)
      then show ?thesis using True "1.prems" by (subst start_from.simps) simp
    qed
  qed
qed

lemma reach_sched_resume:
  assumes "reach_sched e st"
  shows "reach_sched e (resume i st)"
proof (cases "i < length (chain st)")
  case False
  then show ?thesis using assms by (simp add: resume_def)
next
  case True
  note segs_i = reach_sched_nth[OF assms True]
  show ?thesis
  proof (cases "chain st ! i")
    case (Waiting op)
    then show ?thesis using True assms by (simp add: resume_def)
  next
    case (Settled rej)
    then show ?thesis using True assms by (simp add: resume_def)
  next
    case (Running k fs rej)
    show ?thesis
    proof (cases fs)
      case Nil
      then show ?thesis using True Running assms by (simp add: resume_def)
    next
      case (Cons f fs')
      have kf: "keeps_reach e f" "list_all (keeps_reach e) fs'"
        using segs_i Running Cons by simp_all
      let ?st1 = "run_seg i k f st"
      have r1: "reach_sched e ?st1" by (rule reach_sched_run_seg[OF assms kf(1)])
      show ?thesis
      proof (cases "fs' = []")
        case e: True
        have "reach_sched e (start_from (Suc i) (settle i rej ?st1))"
          by (rule reach_sched_start_from[OF reach_sched_settle[OF r1]])
        then show ?thesis
          using True Running Cons e by (simp add: resume_def Let_def)
      next
        case ne: False
        have "reach_sched e (?st1\<lparr>chain := (chain ?st1)[i := Running (Suc k) fs' rej]\<rparr>)"
          by (rule reach_sched_chain_update[OF r1]) (simp add: kf(2))
        then show ?thesis
          using True Running Cons ne by (simp add: resume_def Let_def)
      qed
    qed
  qed
qed

lemma reach_sched_withAgentOp:
  assumes "reach_sched e st" "reach_op e op"
  shows "reach_sched e (withAgentOp op st)"
proof -
  let ?st1 = "st\<lparr>chain := chain st @ [Waiting op]\<rparr>"
  have r1: "reach_sched e ?st1"
    using assms by (simp add: reach_sched_def reach_op_def)
  show ?thesis
    using r1 reach_sched_start_from[OF r1, of "length (chain st)"]
    by (simp add: withAgentOp_def Let_def)
qed

lemma reach_sched_step:
  assumes "reach_sched e st" "reach_event e ev"
  shows "reach_sched e (step ev st)"
proof (cases ev)
  case (Submit op)
  then show ?thesis using assms reach_sched_withAgentOp by simp
next
  case (Resume i)
  then show ?thesis using assms reach_sched_resume by simp
next
  case Status
  then show ?thesis using assms by (simp add: reach_sched_def)
qed

lemma reach_sched_run:
  "reach_sched e st \<Longrightarrow> list_all (reach_event e) evs \<Longrightarrow> reach_sched e (run evs st)"
  unfolding run_def
  by (induction evs arbitrary: st) (simp_all add: reach_sched_step)

lemma reach_sched_idle: "reach e s \<Longrightarrow> reach_sched e (idle s)"
  by (simp add: reach_sched_def idle_def)

text \<open>The handlers as operations of the serializer.\<close>

lemma keeps_flag_ensureBackendStarted_fn: "keeps_flag (\<lambda>s. snd (ensureBackendStarted_fn e s))"
  unfolding keeps_flag_def
proof
  fix s
  let ?cfg = "resolveConfigPath e ''./config.yaml''"
  let ?bin = "defaultMonitordBin e"
  note m0 = flag_startAgentManaged[of e ?bin ?cfg False False s]
  show "agentTransitioning (snd (ensureBackendStarted_fn e s)) = agentTransitioning s"
  proof (cases "agentChild s \<noteq> None")
    case True
    then show ?thesis by (simp add: ensureBackendStarted_fn_def)
  next
    case False
    show ?thesis
    proof (cases "startAgentManaged e ?bin ?cfg False False s")
      case (Inl a)
      obtain err s' where a: "a = (err, s')" by fastforce
      have "agentTransitioning s' = agentTransitioning s" using m0 Inl a by simp
      then show ?thesis using False Inl a by (simp add: ensureBackendStarted_fn_def Let_def)
    next
      case (Inr a)
      obtain res s1 where a: "a = (res, s1)" by fastforce
      have f1: "agentTransitioning s1 = agentTransitioning s" using m0 Inr a by simp
      let ?s2 = "snd (setTelegramEnabledInConfig e ?cfg False s1)"
      have f2: "agentTransitioning ?s2 = agentTransitioning s" using f1 by simp
      note m2 = flag_startAgentManaged[of e ?bin ?cfg False False ?s2]
      show ?thesis
      proof (cases "s_ok res")
        case True
        then show ?thesis using False Inr a f1 by (simp add: ensureBackendStarted_fn_def Let_def)
      next
        case nok: False
        show ?thesis
        proof (cases "startAgentManaged e ?bin ?cfg False False ?s2")
          case (Inl c)
          obtain err s' where c: "c = (err, s')" by fastforce
          have "agentTransitioning s' = agentTransitioning s" using m2 f2 Inl c by simp
          then show ?thesis
            using False Inr a nok Inl c by (simp add: ensureBackendStarted_fn_def Let_def)
        next
          case Inr2: (Inr c)
          obtain ag s3 where c: "c = (ag, s3)" by fastforce
          have "agentTransitioning s3 = agentTransitioning s" using m2 f2 Inr2 c by simp
          then show ?thesis
            using False Inr a nok Inr2 c by (simp add: ensureBackendStarted_fn_def Let_def)
        qed
      qed
    qed
  qed
qed

lemma handlers_wf:
  "wf_op (atomic_op (agent_start_fn e p))" "wf_op (atomic_op (agent_stop_fn e))"
  "wf_op (atomic_op (telegram_set_enabled_fn e b))"
  by (simp_all add: wf_op_def atomic_op_def keeps_flag_agent_start_fn keeps_flag_agent_stop_fn
      keeps_flag_telegram_set_enabled_fn)

lemma handlers_reach:
  "reach_op e (atomic_op (agent_start_fn e p))" "reach_op e (atomic_op (agent_stop_fn e))"
  "reach_op e (atomic_op (telegram_set_enabled_fn e b))"
  by (simp_all add: reach_op_def atomic_op_def keeps_reach_def reach_agent_start_fn
      reach_agent_stop_fn reach_telegram_set_enabled_fn)

lemma slow_op_ok: "wf_op slow_op" "reach_op e slow_op"
  by (simp_all add: wf_op_def reach_op_def slow_op_def keeps_flag_def keeps_reach_def reach_time)

section \<open>The serializer runs one operation at a time\<close>

lemma total_update:
  "i < length (chain st) \<Longrightarrow>
   total (st\<lparr>chain := (chain st)[i := x]\<rparr>) + remaining (chain st ! i) = total st + remaining x"
proof -
  assume i: "i < length (chain st)"
  have "(map remaining (chain st)) ! i \<le> sum_list (map remaining (chain st))"
    by (rule member_le_sum_list) (use i in simp_all)
  then have "sum_list ((map remaining (chain st))[i := remaining x]) + (map remaining (chain st)) ! i
        = sum_list (map remaining (chain st)) + remaining x"
    using i by (simp add: sum_list_update)
  then show ?thesis using i by (simp add: total_def map_update)
qed

lemma executed_append [simp]:
  "executed (st\<lparr>journal := journal st @ [(i, k, b)]\<rparr>) = executed st @ [(i, k)]"
  by (simp add: executed_def)

lemma sorted_wrt_snoc:
  "sorted_wrt P (xs @ [x]) = (sorted_wrt P xs \<and> (\<forall>y \<in> set xs. P y x))"
  by (simp add: sorted_wrt_append)

text \<open>When the reaction of entry \<open>n\<close> fires on a ready chain, the chain ends in shape.\<close>

lemma start_from_ready:
  "ready n st \<Longrightarrow>
   \<exists>m. inv m (start_from n st) \<and> length (chain (start_from n st)) = length (chain st)
       \<and> total (start_from n st) \<le> total st
       \<and> (n < length (chain st) \<longrightarrow> total (start_from n st) < total st)
       \<and> length (journal (start_from n st)) + total (start_from n st)
           = length (journal st) + total st
       \<and> replies (start_from n st) = replies st"
proof (induction "length (chain st) - n" arbitrary: n st)
  case 0
  then have n: "n = length (chain st)" by (simp add: ready_def)
  have s: "start_from n st = st" using n by (subst start_from.simps) simp
  have "inv n st"
    using 0 n by (auto simp: ready_def inv_def journal_ok_def)
  then show ?case using s n by auto
next
  case (Suc d)
  then have n: "n < length (chain st)" by simp
  from Suc.prems n obtain op where w: "chain st ! n = Waiting op"
    by (cases "chain st ! n") (auto simp: ready_def)
  have ok: "wf_op op"
    using Suc.prems n w by (auto simp: ready_def list_all_length dest: spec[of _ n])
  let ?g = "(glob st)\<lparr>agentTransitioning := True\<rparr>"
  let ?st1 = "run_seg n 0 (op_first op) (st\<lparr>glob := ?g\<rparr>)"
  have j1: "journal ?st1 = journal st @ [(n, 0, True)]" "chain ?st1 = chain st"
    "glob ?st1 = op_first op ?g" "replies ?st1 = replies st"
    by (simp_all add: run_seg_def)
  have fl: "agentTransitioning (glob ?st1)"
    using ok by (simp add: j1 wf_op_def keeps_flag_def)
  have e1: "executed ?st1 = executed st @ [(n, 0)]"
    by (simp add: run_seg_def executed_def)
  have srt: "sorted_wrt before (executed st @ [(n, 0)])"
    using Suc.prems by (auto simp: ready_def sorted_wrt_snoc before_def executed_def)
  show ?case
  proof (cases "op_rest op = []")
    case True
    let ?st2 = "settle n (op_rejects op) ?st1"
    have u: "start_from n st = start_from (Suc n) ?st2"
      using n w True by (subst start_from.simps) (simp add: Let_def)
    have c2: "chain ?st2 = (chain st)[n := Settled (op_rejects op)]"
      "journal ?st2 = journal st @ [(n, 0, True)]" "replies ?st2 = replies st"
      by (simp_all add: settle_def j1)
    have g2: "\<not> agentTransitioning (glob ?st2)" by (simp add: settle_def)
    have e2: "executed ?st2 = executed st @ [(n, 0)]"
      by (simp add: settle_def run_seg_def executed_def)
    have r2: "ready (Suc n) ?st2"
      unfolding ready_def c2 e2
      using Suc.prems n srt g2
      by (auto simp: ready_def nth_list_update list_all_length less_Suc_eq)
    have d: "d = length (chain ?st2) - Suc n" using Suc.hyps(2) by (simp add: c2)
    from Suc.hyps(1)[OF d r2] obtain m where
      m: "inv m (start_from (Suc n) ?st2)"
        "length (chain (start_from (Suc n) ?st2)) = length (chain ?st2)"
        "total (start_from (Suc n) ?st2) \<le> total ?st2"
        "length (journal (start_from (Suc n) ?st2)) + total (start_from (Suc n) ?st2)
           = length (journal ?st2) + total ?st2"
        "replies (start_from (Suc n) ?st2) = replies ?st2" by blast
    have "total ?st2 + remaining (chain st ! n) = total st + remaining (Settled (op_rejects op))"
      using total_update[OF n, of "Settled (op_rejects op)"] by (simp add: total_def c2)
    then have "Suc (total ?st2) = total st" using w True by simp
    with m u c2 show ?thesis by (auto intro!: exI[of _ m])
  next
    case False
    let ?r = "Running 1 (op_rest op) (op_rejects op)"
    let ?st2 = "?st1\<lparr>chain := (chain ?st1)[n := ?r]\<rparr>"
    have u: "start_from n st = ?st2"
      using n w False by (subst start_from.simps) (simp add: Let_def)
    have c2: "chain ?st2 = (chain st)[n := ?r]" "journal ?st2 = journal st @ [(n, 0, True)]"
      "glob ?st2 = glob ?st1" "replies ?st2 = replies st"
      by (simp_all add: j1)
    have e2: "executed ?st2 = executed st @ [(n, 0)]"
      by (simp add: run_seg_def executed_def)
    have "inv n ?st2"
      unfolding inv_def journal_ok_def c2 e2
      using Suc.prems n srt fl False ok
      by (auto simp: ready_def nth_list_update list_all_length wf_op_def)
    moreover have "total ?st2 + remaining (chain st ! n) = total st + remaining ?r"
      using total_update[OF n, of ?r] by (simp add: total_def j1)
    then have "Suc (total ?st2) = total st" using w by simp
    ultimately show ?thesis using u c2 by (auto intro!: exI[of _ n])
  qed
qed

lemma inv_withAgentOp:
  assumes "inv n st" "wf_op op"
  shows "\<exists>m. inv m (withAgentOp op st)
           \<and> length (chain (withAgentOp op st)) = Suc (length (chain st))
           \<and> length (journal (withAgentOp op st)) + total (withAgentOp op st)
               = length (journal st) + total st + Suc (length (op_rest op))
           \<and> replies (withAgentOp op st) = replies st"
proof (cases "n = length (chain st)")
  case True
  let ?st1 = "st\<lparr>chain := chain st @ [Waiting op]\<rparr>"
  have c: "length (chain st) = 0 \<or> is_settled (chain st ! (length (chain st) - 1))"
    using assms(1) True by (cases "length (chain st)") (auto simp: inv_def)
  have u: "withAgentOp op st = start_from n ?st1"
    using c True by (simp add: withAgentOp_def Let_def)
  have "ready n ?st1"
    using assms True
    by (auto simp: inv_def ready_def journal_ok_def nth_append executed_def)
  moreover have "total ?st1 = total st + Suc (length (op_rest op))"
    by (simp add: total_def)
  ultimately show ?thesis using start_from_ready[of n ?st1] unfolding u by auto
next
  case False
  then have n: "n < length (chain st)" using assms(1) by (simp add: inv_def)
  let ?st1 = "st\<lparr>chain := chain st @ [Waiting op]\<rparr>"
  have "\<not> is_settled (chain st ! (length (chain st) - 1))"
  proof (cases "n = length (chain st) - 1")
    case True
    with assms(1) n show ?thesis by (cases "chain st ! n") (auto simp: inv_def)
  next
    case False
    with n have "n < length (chain st) - 1" by simp
    with assms(1) n have "is_waiting (chain st ! (length (chain st) - 1))"
      by (simp add: inv_def)
    then show ?thesis by (cases "chain st ! (length (chain st) - 1)") auto
  qed
  moreover have "length (chain st) \<noteq> 0" using n by auto
  ultimately have u: "withAgentOp op st = ?st1"
    by (simp add: withAgentOp_def Let_def)
  have "inv n ?st1"
    using assms n
    by (auto simp: inv_def journal_ok_def nth_append executed_def less_Suc_eq)
  moreover have "total ?st1 = total st + Suc (length (op_rest op))"
    by (simp add: total_def)
  ultimately show ?thesis unfolding u by auto
qed

lemma inv_resume:
  assumes "inv n st"
  shows "\<exists>m. inv m (resume i st) \<and> length (chain (resume i st)) = length (chain st)
           \<and> replies (resume i st) = replies st
           \<and> length (journal (resume i st)) + total (resume i st)
               = length (journal st) + total st
           \<and> (i = n \<and> n < length (chain st) \<longrightarrow> total (resume i st) < total st)"
proof (cases "i = n \<and> n < length (chain st)")
  case False
  have "resume i st = st"
  proof (cases "i < length (chain st)")
    case True
    with False assms have "is_settled (chain st ! i) \<or> is_waiting (chain st ! i)"
      by (cases "i < n") (auto simp: inv_def)
    then show ?thesis by (cases "chain st ! i") (auto simp: resume_def)
  next
    case False
    then show ?thesis by (simp add: resume_def)
  qed
  with assms False show ?thesis by auto
next
  case True
  then have i: "i = n" and n: "n < length (chain st)" by simp_all
  from assms n obtain k fs rej where r: "chain st ! n = Running k fs rej"
    by (cases "chain st ! n") (auto simp: inv_def)
  from assms n r have ok: "fs \<noteq> []" "list_all keeps_flag fs"
    by (auto simp: inv_def list_all_length dest: spec[of _ n])
  then obtain f fs' where fs: "fs = f # fs'" by (cases fs) auto
  have kf: "keeps_flag f" using ok fs by simp
  have flag: "agentTransitioning (glob st)" using assms n by (simp add: inv_def)
  let ?st1 = "run_seg n k f st"
  have j1: "journal ?st1 = journal st @ [(n, k, True)]" "chain ?st1 = chain st"
    "glob ?st1 = f (glob st)" "replies ?st1 = replies st"
    using flag by (simp_all add: run_seg_def)
  have fl: "agentTransitioning (glob ?st1)"
    using kf flag by (simp add: j1 keeps_flag_def)
  have old: "\<forall>(i', k', b) \<in> set (journal st). b \<and> (i' < n \<or> i' = n \<and> k' < k)"
    using assms n r by (auto simp: inv_def journal_ok_def)
  have srt: "sorted_wrt before (executed st @ [(n, k)])"
    using assms old by (auto simp: inv_def journal_ok_def sorted_wrt_snoc before_def executed_def)
  show ?thesis
  proof (cases "fs' = []")
    case True
    let ?st2 = "settle n rej ?st1"
    have u: "resume i st = start_from (Suc n) ?st2"
      using i n r fs True by (simp add: resume_def Let_def)
    have c2: "chain ?st2 = (chain st)[n := Settled rej]"
      "journal ?st2 = journal st @ [(n, k, True)]" "replies ?st2 = replies st"
      by (simp_all add: settle_def j1)
    have g2: "\<not> agentTransitioning (glob ?st2)" by (simp add: settle_def)
    have e2: "executed ?st2 = executed st @ [(n, k)]"
      using flag by (simp add: settle_def run_seg_def executed_def)
    have r2: "ready (Suc n) ?st2"
      unfolding ready_def c2 e2
      using assms n srt g2 old
      by (auto simp: inv_def nth_list_update list_all_length less_Suc_eq)
    from start_from_ready[OF r2] obtain m where
      m: "inv m (start_from (Suc n) ?st2)"
        "length (chain (start_from (Suc n) ?st2)) = length (chain ?st2)"
        "total (start_from (Suc n) ?st2) \<le> total ?st2"
        "length (journal (start_from (Suc n) ?st2)) + total (start_from (Suc n) ?st2)
           = length (journal ?st2) + total ?st2"
        "replies (start_from (Suc n) ?st2) = replies ?st2" by blast
    have "total ?st2 + remaining (chain st ! n) = total st + remaining (Settled rej)"
      using total_update[OF n, of "Settled rej"] by (simp add: total_def c2)
    then have "Suc (total ?st2) = total st" using r fs True by simp
    with m u c2 show ?thesis by (auto intro!: exI[of _ m])
  next
    case False
    let ?r = "Running (Suc k) fs' rej"
    let ?st2 = "?st1\<lparr>chain := (chain ?st1)[n := ?r]\<rparr>"
    have u: "resume i st = ?st2"
      using i n r fs False by (simp add: resume_def Let_def)
    have c2: "chain ?st2 = (chain st)[n := ?r]" "journal ?st2 = journal st @ [(n, k, True)]"
      "glob ?st2 = glob ?st1" "replies ?st2 = replies st"
      by (simp_all add: j1)
    have e2: "executed ?st2 = executed st @ [(n, k)]"
      using flag by (simp add: run_seg_def executed_def)
    have "inv n ?st2"
      unfolding inv_def journal_ok_def c2 e2
      using assms n srt fl False ok fs old
      by (auto simp: inv_def nth_list_update list_all_length)
    moreover have "total ?st2 + remaining (chain st ! n) = total st + remaining ?r"
      using total_update[OF n, of ?r] by (simp add: total_def j1)
    then have "Suc (total ?st2) = total st" using r fs by simp
    ultimately show ?thesis using u c2 i n by (auto intro!: exI[of _ n])
  qed
qed

lemma inv_status:
  "inv n st \<Longrightarrow> inv n (st\<lparr>replies := replies st @ [x]\<rparr>)"
  by (simp add: inv_def journal_ok_def executed_def)

lemma total_status [simp]: "total (st\<lparr>replies := r\<rparr>) = total st"
  by (simp add: total_def)

lemma inv_step:
  assumes "inv n st" "wf_event ev"
  shows "\<exists>m. inv m (step ev st)
           \<and> length (chain (step ev st)) = length (chain st) + (if is_submit ev then 1 else 0)
           \<and> length (journal (step ev st)) + total (step ev st)
               = length (journal st) + total st + cost ev"
proof (cases ev)
  case (Submit op)
  with assms inv_withAgentOp[of n st op] show ?thesis by auto
next
  case (Resume i)
  with assms inv_resume[of n st i] show ?thesis by auto
next
  case Status
  with assms inv_status[of n st] show ?thesis by auto
qed

lemma inv_run:
  "inv n st \<Longrightarrow> list_all wf_event evs \<Longrightarrow>
   \<exists>m. inv m (run evs st)
     \<and> length (chain (run evs st)) = length (chain st) + length (filter is_submit evs)
     \<and> length (journal (run evs st)) + total (run evs st)
         = length (journal st) + total st + sum_list (map cost evs)"
proof (induction evs arbitrary: n st)
  case Nil
  then show ?case by (auto simp: run_def)
next
  case (Cons ev evs)
  from inv_step[OF Cons.prems(1), of ev] Cons.prems(2) obtain m where
    m: "inv m (step ev st)"
      "length (chain (step ev st)) = length (chain st) + (if is_submit ev then 1 else 0)"
      "length (journal (step ev st)) + total (step ev st)
         = length (journal st) + total st + cost ev"
    by auto
  from Cons.IH[OF m(1)] Cons.prems(2) obtain m' where
    "inv m' (run evs (step ev st))"
    "length (chain (run evs (step ev st)))
       = length (chain (step ev st)) + length (filter is_submit evs)"
    "length (journal (run evs (step ev st))) + total (run evs (step ev st))
       = length (journal (step ev st)) + total (step ev st) + sum_list (map cost evs)"
    by auto
  with m show ?case by (auto simp: run_def intro!: exI[of _ m'])
qed

lemma inv_idle: "\<not> agentTransitioning s \<Longrightarrow> inv 0 (idle s)"
  by (simp add: inv_def idle_def journal_ok_def executed_def)



lemma entry_kinds:
  "\<not> (is_settled x \<and> is_running x)" "\<not> (is_waiting x \<and> is_running x)"
  "\<not> (is_settled x \<and> is_waiting x)"
  by (cases x; simp)+

lemma inv_running_at:
  assumes "inv n st" "j < length (chain st)" "is_running (chain st ! j)"
  shows "j = n"
proof -
  consider "j < n" | "j = n" | "n < j" by arith
  then show ?thesis
  proof cases
    case 1
    with assms(1) have "is_settled (chain st ! j)" by (simp add: inv_def)
    with assms(3) entry_kinds(1)[of "chain st ! j"] show ?thesis by simp
  next
    case 2
    then show ?thesis .
  next
    case 3
    with assms(1,2) have "is_waiting (chain st ! j)" by (simp add: inv_def)
    with assms(3) entry_kinds(2)[of "chain st ! j"] show ?thesis by simp
  qed
qed

lemma inv_settled_before:
  assumes "inv n st" "j < length (chain st)" "is_settled (chain st ! j)"
  shows "j < n"
proof -
  consider "j < n" | "j = n" | "n < j" by arith
  then show ?thesis
  proof cases
    case 1
    then show ?thesis .
  next
    case 2
    with assms(1,2) have "is_running (chain st ! j)" by (simp add: inv_def)
    with assms(3) entry_kinds(1)[of "chain st ! j"] show ?thesis by simp
  next
    case 3
    with assms(1,2) have "is_waiting (chain st ! j)" by (simp add: inv_def)
    with assms(3) entry_kinds(3)[of "chain st ! j"] show ?thesis by simp
  qed
qed

lemma inv_facts:
  assumes "inv n st"
  shows "sorted_wrt before (executed st)"
    and "list_all (\<lambda>(i, k, b). b) (journal st)"
    and "\<forall>i j. i < length (chain st) \<longrightarrow> j < length (chain st) \<longrightarrow>
           is_running (chain st ! i) \<longrightarrow> is_running (chain st ! j) \<longrightarrow> i = j"
    and "agentTransitioning (glob st) = list_ex is_running (chain st)"
    and "\<forall>j. Suc j < length (chain st) \<longrightarrow> is_settled (chain st ! j) \<longrightarrow>
           \<not> is_waiting (chain st ! Suc j)"
proof -
  show "sorted_wrt before (executed st)" using assms by (simp add: inv_def journal_ok_def)
  show "list_all (\<lambda>(i, k, b). b) (journal st)"
    using assms unfolding inv_def journal_ok_def list_all_iff by fast
  show "\<forall>i j. i < length (chain st) \<longrightarrow> j < length (chain st) \<longrightarrow>
           is_running (chain st ! i) \<longrightarrow> is_running (chain st ! j) \<longrightarrow> i = j"
  proof (intro allI impI)
    fix i j
    assume "i < length (chain st)" "j < length (chain st)"
      "is_running (chain st ! i)" "is_running (chain st ! j)"
    then have "i = n" "j = n" using inv_running_at[OF assms] by blast+
    then show "i = j" by simp
  qed
  show "agentTransitioning (glob st) = list_ex is_running (chain st)"
  proof -
    have "list_ex is_running (chain st) = (n < length (chain st))"
    proof
      assume "list_ex is_running (chain st)"
      then obtain x where "x \<in> set (chain st)" "is_running x" by (auto simp: list_ex_iff)
      then obtain j where "j < length (chain st)" "is_running (chain st ! j)"
        by (auto simp: in_set_conv_nth)
      with inv_running_at[OF assms] show "n < length (chain st)" by simp
    next
      assume n: "n < length (chain st)"
      with assms have "is_running (chain st ! n)" by (simp add: inv_def)
      with n show "list_ex is_running (chain st)"
        unfolding list_ex_iff using nth_mem by blast
    qed
    then show ?thesis using assms by (simp add: inv_def)
  qed
  show "\<forall>j. Suc j < length (chain st) \<longrightarrow> is_settled (chain st ! j) \<longrightarrow>
           \<not> is_waiting (chain st ! Suc j)"
  proof (intro allI impI)
    fix j assume j: "Suc j < length (chain st)" and s: "is_settled (chain st ! j)"
    have "j < n" using inv_settled_before[OF assms _ s] j by simp
    then consider "Suc j < n" | "Suc j = n" by arith
    then show "\<not> is_waiting (chain st ! Suc j)"
    proof cases
      case 1
      with assms have "is_settled (chain st ! Suc j)" by (simp add: inv_def)
      with entry_kinds(3)[of "chain st ! Suc j"] show ?thesis by simp
    next
      case 2
      with assms j have "is_running (chain st ! Suc j)" by (simp add: inv_def)
      with entry_kinds(2)[of "chain st ! Suc j"] show ?thesis by simp
    qed
  qed
qed




section \<open>The status query (lines 542--550)\<close>

text \<open>
  Claim C7. The handler of \<open>agent:status\<close> (lines 542--550) is not routed through
  \<open>withAgentOp\<close>: in any turn of the event loop, whatever the chain of the serializer
  holds, it answers at once and changes neither the globals nor the chain. Its answer is
  the current value of the globals: \<open>running\<close>, \<open>pid\<close>, the feature flag, the base URL,
  and the transitioning flag, which is on exactly when an operation is executing. In
  every state the controller can reach, the handle it reports is never one whose exit
  has been notified, and the exit notification of the tracked handle makes the answer
  \<open>running == false\<close> and \<open>pid == null\<close>. Handles are meant, not pid numbers, which
  the operating system may reuse.
\<close>

theorem agent_status_snapshot:
  assumes "reach e s" "\<not> agentTransitioning s"
    and "list_all wf_event evs" "list_all (reach_event e) evs"
  shows "glob (step Status (run evs (idle s))) = glob (run evs (idle s))
       \<and> chain (step Status (run evs (idle s))) = chain (run evs (idle s))
       \<and> journal (step Status (run evs (idle s))) = journal (run evs (idle s))
       \<and> replies (step Status (run evs (idle s)))
           = replies (run evs (idle s)) @ [agent_status (glob (run evs (idle s)))]
       \<and> agent_status (glob (run evs (idle s)))
           = \<lparr>r_running = (agentChild (glob (run evs (idle s))) \<noteq> None),
              r_pid = (case agentChild (glob (run evs (idle s))) of
                         None \<Rightarrow> None
                       | Some h \<Rightarrow> pid (children (glob (run evs (idle s))) ! h)),
              r_telegramEnabled = telegramEnabledRuntime (glob (run evs (idle s))),
              r_baseUrl = backendBaseUrlRuntime (glob (run evs (idle s))),
              r_transitioning = list_ex is_running (chain (run evs (idle s)))\<rparr>
       \<and> (\<forall>h < length (children (glob (run evs (idle s)))).
             exited (children (glob (run evs (idle s))) ! h)
             \<longrightarrow> agentChild (glob (run evs (idle s))) \<noteq> Some h)
       \<and> (\<forall>h. agentChild (glob (run evs (idle s))) = Some h
             \<longrightarrow> h < length (children (glob (run evs (idle s))))
               \<and> \<not> exited (children (glob (run evs (idle s))) ! h)
               \<and> r_running (agent_status (exit_event h (glob (run evs (idle s))))) = False
               \<and> r_pid (agent_status (exit_event h (glob (run evs (idle s))))) = None)"
proof -
  let ?st = "run evs (idle s)"
  let ?G = "glob ?st"
  from inv_run[OF inv_idle[OF assms(2)] assms(3)] obtain m where m: "inv m ?st" by blast
  have fl: "agentTransitioning ?G = list_ex is_running (chain ?st)"
    by (rule inv_facts(4)[OF m])
  have "reach_sched e ?st"
    by (rule reach_sched_run[OF reach_sched_idle[OF assms(1)] assms(4)])
  then have "reach e ?G" by (simp add: reach_sched_def)
  then have ta: "tracked_alive ?G" by (rule reach_tracked_alive)
  have 1: "glob (step Status ?st) = ?G" "chain (step Status ?st) = chain ?st"
    "journal (step Status ?st) = journal ?st"
    "replies (step Status ?st) = replies ?st @ [agent_status ?G]"
    by simp_all
  have 2: "agent_status ?G
           = \<lparr>r_running = (agentChild ?G \<noteq> None),
              r_pid = (case agentChild ?G of None \<Rightarrow> None | Some h \<Rightarrow> pid (children ?G ! h)),
              r_telegramEnabled = telegramEnabledRuntime ?G,
              r_baseUrl = backendBaseUrlRuntime ?G,
              r_transitioning = list_ex is_running (chain ?st)\<rparr>"
    by (simp add: agent_status_def fl)
  have 3: "\<forall>h < length (children ?G). exited (children ?G ! h) \<longrightarrow> agentChild ?G \<noteq> Some h"
    using ta by (auto simp: tracked_alive_def)
  have 4: "\<forall>h. agentChild ?G = Some h
             \<longrightarrow> h < length (children ?G) \<and> \<not> exited (children ?G ! h)
               \<and> r_running (agent_status (exit_event h ?G)) = False
               \<and> r_pid (agent_status (exit_event h ?G)) = None"
    using ta by (auto simp: tracked_alive_def agent_status_def exit_event_agentChild)
  show ?thesis using 1 2 3 4 by blast
qed

lemmas status_defs =
  run_def withAgentOp_def resume_def start_from.simps settle_def run_seg_def idle_def
  atomic_op_def slow_op_def agent_start_fn_def startAgentManaged_def
  spawnAgentProcess_def spawn_def birth_def buildArgs_def
  setTelegramEnabledInConfig_def readListenFromConfig_def
  waitForBackendReady_def waitForBackendReady_loop.simps
  advance_def deliver_def exit_event_def attachAgentLifecycle_def emit_exit_def due_def exited_def
  resolveProjectPath_def resolveConfigPath_def normalize_def runtimeConfigPath_def
  defaultMonitordBin_def startsWith_def resolve_sample_listen
  sample_env_def sample_child_def sample_files_def sample_payload_def initial_def
  agent_status_def Let_def

text \<open>
  The hypotheses of C7 hold for: start the agent, submit an operation that awaits, query
  the status, complete the await, query again. Both answers report the running child
  and its pid; the first is given while the second operation is in flight and has the
  transitioning flag on, the second has it off. The exit notification of the child would
  make the answer not running, without pid.
\<close>

theorem agent_status_snapshot_witness:
  "map r_transitioning
     (replies (run [Submit (atomic_op (agent_start_fn (sample_env True) (sample_payload False))),
                    Submit slow_op, Status, Resume 1, Status]
                 (idle (initial sample_files)))) = [True, False]
   \<and> map r_pid
     (replies (run [Submit (atomic_op (agent_start_fn (sample_env True) (sample_payload False))),
                    Submit slow_op, Status, Resume 1, Status]
                 (idle (initial sample_files)))) = [Some 4242, Some 4242]
   \<and> map r_running
     (replies (run [Submit (atomic_op (agent_start_fn (sample_env True) (sample_payload False))),
                    Submit slow_op, Status, Resume 1, Status]
                 (idle (initial sample_files)))) = [True, True]
   \<and> agentChild
     (glob (run [Submit (atomic_op (agent_start_fn (sample_env True) (sample_payload False))),
                 Submit slow_op, Status, Resume 1, Status]
              (idle (initial sample_files)))) = Some 0
   \<and> r_running (agent_status (exit_event 0
     (glob (run [Submit (atomic_op (agent_start_fn (sample_env True) (sample_payload False))),
                 Submit slow_op, Status, Resume 1, Status]
              (idle (initial sample_files)))))) = False
   \<and> r_pid (agent_status (exit_event 0
     (glob (run [Submit (atomic_op (agent_start_fn (sample_env True) (sample_payload False))),
                 Submit slow_op, Status, Resume 1, Status]
              (idle (initial sample_files)))))) = None"
proof -
  let ?evs = "[Submit (atomic_op (agent_start_fn (sample_env True) (sample_payload False))),
               Submit slow_op, Status, Resume 1, Status]"
  let ?st = "run ?evs (idle (initial sample_files))"
  have r: "reach (sample_env True) (initial sample_files)" by (rule reach_initial)
  have i: "\<not> agentTransitioning (initial sample_files)" by (simp add: initial_def)
  have w: "list_all wf_event ?evs" by (simp add: handlers_wf slow_op_ok)
  have k: "list_all (reach_event (sample_env True)) ?evs" by (simp add: handlers_reach slow_op_ok)
  have e: "map r_transitioning (replies ?st) = [True, False]"
    "map r_pid (replies ?st) = [Some 4242, Some 4242]"
    "map r_running (replies ?st) = [True, True]"
    "agentChild (glob ?st) = Some 0"
    by (simp_all add: status_defs)
  note T = agent_status_snapshot[OF r i w k]
  have x: "r_running (agent_status (exit_event 0 (glob ?st))) = False"
    "r_pid (agent_status (exit_event 0 (glob ?st))) = None"
    using T e(4) by blast+
  show ?thesis using e x by blast
qed

end
